theory Spec2Isabelle
  imports Main "HOL-Library.Char_ord" "HOL-Library.List_Lexorder"
begin

section \<open>Strings of the Python runtime\<close>

text \<open>
  A Python \<^verbatim>\<open>str\<close> is modelled as a HOL \<^typ>\<open>string\<close>: a list of characters, each
  a code point below 256. The library functions the program calls on strings
  (\<^verbatim>\<open>str.strip\<close>, \<^verbatim>\<open>str.rstrip\<close>, \<^verbatim>\<open>str.replace\<close>, \<^verbatim>\<open>str.lower\<close>, \<^verbatim>\<open>os.path.join\<close>,
  \<^verbatim>\<open>os.path.splitext\<close>) are written out as they behave on such strings; the
  \<^verbatim>\<open>os.path\<close> functions are the POSIX ones.
\<close>

definition isspace :: "char \<Rightarrow> bool" where
  \<comment> \<open>\<^verbatim>\<open>str.isspace\<close> on one character: TAB, LF, VT, FF, CR, FS, GS, RS, US, SPACE,
      NEL and NBSP are the white space below 256.\<close>
  "isspace c =
     (let n = (of_char c :: nat)
      in (9 \<le> n \<and> n \<le> 13) \<or> (28 \<le> n \<and> n \<le> 32) \<or> n = 133 \<or> n = 160)"

definition lstrip :: "string \<Rightarrow> string" where
  "lstrip s = dropWhile isspace s"

definition rstrip :: "string \<Rightarrow> string" where
  "rstrip s = rev (dropWhile isspace (rev s))"

definition strip :: "string \<Rightarrow> string" where
  \<comment> \<open>\<^verbatim>\<open>s.strip()\<close>: leading and trailing white space removed.\<close>
  "strip s = rstrip (lstrip s)"

definition rstrip_chars :: "string \<Rightarrow> string \<Rightarrow> string" where
  \<comment> \<open>\<^verbatim>\<open>s.rstrip(chars)\<close>: trailing characters of \<open>chars\<close> removed.\<close>
  "rstrip_chars chars s = rev (dropWhile (\<lambda>c. c \<in> set chars) (rev s))"

fun contains_double_space :: "string \<Rightarrow> bool" where
  \<comment> \<open>\<^verbatim>\<open>"  " in s\<close>\<close>
  "contains_double_space (a # b # cs) =
     ((a = CHR '' '' \<and> b = CHR '' '') \<or> contains_double_space (b # cs))"
| "contains_double_space cs = False"

fun replace_double_space :: "string \<Rightarrow> string" where
  \<comment> \<open>\<^verbatim>\<open>s.replace("  ", " ")\<close>: the occurrences are found from the left and do
      not overlap.\<close>
  "replace_double_space (a # b # cs) =
     (if a = CHR '' '' \<and> b = CHR '' '' then CHR '' '' # replace_double_space cs
      else a # replace_double_space (b # cs))"
| "replace_double_space cs = cs"

function collapse_spaces :: "string \<Rightarrow> string" where
  \<comment> \<open>\<^verbatim>\<open>while "  " in s: s = s.replace("  ", " ")\<close>\<close>
  "collapse_spaces s =
     (if contains_double_space s then collapse_spaces (replace_double_space s) else s)"
  by pat_completeness auto
termination
proof (relation "measure length")
  show "wf (measure (length :: string \<Rightarrow> nat))" by simp
next
  fix s :: string
  assume double: "contains_double_space s"
  have shorter_or_same: "length (replace_double_space t) \<le> length t" for t
    by (induction t rule: replace_double_space.induct) auto
  have shorter: "contains_double_space t \<Longrightarrow> length (replace_double_space t) < length t" for t
  proof (induction t rule: contains_double_space.induct)
    case (1 a b cs)
    show ?case
    proof (cases "a = CHR '' '' \<and> b = CHR '' ''")
      case True
      then show ?thesis
        using shorter_or_same [of cs] by simp
    next
      case False
      with 1 show ?thesis by auto
    qed
  qed simp_all
  from shorter [OF double] show "(replace_double_space s, s) \<in> measure length" by simp
qed

declare collapse_spaces.simps [simp del]

section \<open>The name sanitizer\<close>

definition invalid :: string where
  \<comment> \<open>\<^verbatim>\<open><>:"/\|?*\<close>, the characters Windows refuses in a file name\<close>
  "invalid = [CHR ''<'', CHR ''>'', CHR '':'', CHR 0x22, CHR ''/'', CHR 0x5C,
              CHR ''|'', CHR ''?'', CHR ''*'']"

definition sanitize_filename :: "string \<Rightarrow> string" where
  "sanitize_filename name =
     (let sanitized = map (\<lambda>c. if c \<in> set invalid then CHR '' '' else c) name;
          sanitized = map (\<lambda>c. if c = CHR ''_'' then CHR '' '' else c) sanitized;
          sanitized = collapse_spaces sanitized;
          sanitized = rstrip_chars ''.'' (strip sanitized)
      in if sanitized = [] then ''unnamed'' else sanitized)"

section \<open>Paths\<close>

definition path_join :: "string \<Rightarrow> string \<Rightarrow> string" where
  \<comment> \<open>\<^verbatim>\<open>os.path.join(a, b)\<close>: an absolute \<open>b\<close> replaces \<open>a\<close>; otherwise the two are put
      together with one separator, unless \<open>a\<close> is empty or already ends in one.\<close>
  "path_join a b =
     (if b \<noteq> [] \<and> hd b = CHR ''/'' then b
      else if a = [] \<or> last a = CHR ''/'' then a @ b
      else a @ ''/'' @ b)"

definition rfind :: "char \<Rightarrow> string \<Rightarrow> int" where
  \<comment> \<open>\<^verbatim>\<open>p.rfind(c)\<close>: the highest index of \<open>c\<close> in \<open>p\<close>, or -1.\<close>
  "rfind c p =
     (case dropWhile (\<lambda>x. x \<noteq> c) (rev p) of
        [] \<Rightarrow> - 1
      | _ # front \<Rightarrow> int (length front))"

function skip_leading_dots :: "string \<Rightarrow> nat \<Rightarrow> nat \<Rightarrow> string \<times> string" where
  \<comment> \<open>The loop of \<^verbatim>\<open>genericpath._splitext\<close>: the dot at \<open>dotIndex\<close> starts an
      extension only if some character before it, from \<open>filenameIndex\<close> on, is
      not a dot.\<close>
  "skip_leading_dots p filenameIndex dotIndex =
     (if filenameIndex < dotIndex then
        (if p ! filenameIndex \<noteq> CHR ''.'' then (take dotIndex p, drop dotIndex p)
         else skip_leading_dots p (filenameIndex + 1) dotIndex)
      else (p, []))"
  by pat_completeness auto
termination
  by (relation "measure (\<lambda>(p, filenameIndex, dotIndex). dotIndex - filenameIndex)") auto

declare skip_leading_dots.simps [simp del]

definition splitext :: "string \<Rightarrow> string \<times> string" where
  \<comment> \<open>\<^verbatim>\<open>os.path.splitext(p)\<close>\<close>
  "splitext p =
     (let sepIndex = rfind (CHR ''/'') p;
          dotIndex = rfind (CHR ''.'') p
      in if dotIndex > sepIndex then skip_leading_dots p (nat (sepIndex + 1)) (nat dotIndex)
         else (p, []))"

definition lower_char :: "char \<Rightarrow> char" where
  \<comment> \<open>\<^verbatim>\<open>str.lower\<close> on one character below 256: the letters A to Z, and the
      accented capitals 192 to 222 but for the multiplication sign 215.\<close>
  "lower_char c =
     (let n = (of_char c :: nat)
      in if (65 \<le> n \<and> n \<le> 90) \<or> (192 \<le> n \<and> n \<le> 222 \<and> n \<noteq> 215) then char_of (n + 32)
         else c)"

definition lower :: "string \<Rightarrow> string" where
  "lower s = map lower_char s"

fun str_nat :: "nat \<Rightarrow> string" where
  \<comment> \<open>\<^verbatim>\<open>str(i)\<close> of a natural number: its decimal digits.\<close>
  "str_nat n =
     (if n < 10 then [char_of (48 + n)]
      else str_nat (n div 10) @ [char_of (48 + n mod 10)])"

declare str_nat.simps [simp del]

section \<open>The unique path resolver\<close>

text \<open>
  The file system is seen through \<^verbatim>\<open>os.path.exists\<close>: \<open>existing\<close> lists the paths
  for which it answers true. A file system holds finitely many paths, so the
  search below ends.
\<close>

function choose_numbered :: "string \<Rightarrow> string \<Rightarrow> string \<Rightarrow> string list \<Rightarrow> nat \<Rightarrow> string" where
  \<comment> \<open>\<^verbatim>\<open>while True: ...; i += 1\<close>\<close>
  "choose_numbered base_name ext folder existing i =
     (let candidate = base_name @ '' ('' @ str_nat i @ '')'' @ ext;
          path = path_join folder candidate
      in if path \<notin> set existing then path
         else choose_numbered base_name ext folder existing (i + 1))"
  by pat_completeness auto
termination
proof (relation "measure (\<lambda>(base_name, ext, folder, existing, i).
                    10 ^ sum_list (map length existing) - i)")
  show "wf (measure (\<lambda>(base_name :: string, ext :: string, folder :: string, existing, i).
                    10 ^ sum_list (map length existing) - i))"
    by simp
next
  fix base_name ext folder :: string and existing :: "string list" and i :: nat
    and candidate path :: string
  assume candidate: "candidate = base_name @ '' ('' @ str_nat i @ '')'' @ ext"
    and path: "path = path_join folder candidate"
    and taken: "\<not> path \<notin> set existing"
  have digits: "n < 10 ^ length (str_nat n)" for n
  proof (induction n rule: str_nat.induct)
    case (1 n)
    show ?case
    proof (cases "n < 10")
      case True
      then show ?thesis by (simp add: str_nat.simps [of n])
    next
      case False
      with 1 have "n div 10 < 10 ^ length (str_nat (n div 10))" by simp
      then have "n < 10 * 10 ^ length (str_nat (n div 10))" by linarith
      with False show ?thesis by (simp add: str_nat.simps [of n])
    qed
  qed
  have member: "x \<in> set xs \<Longrightarrow> length x \<le> sum_list (map length xs)"
    for x :: string and xs
    by (induction xs) auto
  have "length (str_nat i) \<le> length candidate"
    by (simp add: candidate)
  also have "\<dots> \<le> length path"
    by (simp add: path path_join_def)
  also have "\<dots> \<le> sum_list (map length existing)"
    using taken by (intro member) simp
  finally have "(10::nat) ^ length (str_nat i) \<le> 10 ^ sum_list (map length existing)"
    by (simp add: power_increasing)
  with digits [of i] have "i < 10 ^ sum_list (map length existing)" by linarith
  then show "((base_name, ext, folder, existing, i + 1), (base_name, ext, folder, existing, i))
               \<in> measure (\<lambda>(base_name, ext, folder, existing, i).
                    10 ^ sum_list (map length existing) - i)"
    by simp
qed

declare choose_numbered.simps [simp del]

definition choose_unique_filename :: "string \<Rightarrow> string \<Rightarrow> string \<Rightarrow> string list \<Rightarrow> string" where
  "choose_unique_filename base_name ext folder existing =
     (let candidate = base_name @ ext;
          path = path_join folder candidate
      in if path \<notin> set existing then path
         else choose_numbered base_name ext folder existing 2)"

fun claim_repeatedly :: "string \<Rightarrow> string \<Rightarrow> string \<Rightarrow> string list \<Rightarrow> nat \<Rightarrow> string list" where
  \<comment> \<open>The resolver called \<open>n\<close> times, each returned path created before the next call.\<close>
  "claim_repeatedly base_name ext folder existing 0 = []"
| "claim_repeatedly base_name ext folder existing (Suc n) =
     (let path = choose_unique_filename base_name ext folder existing
      in path # claim_repeatedly base_name ext folder (path # existing) n)"

section \<open>The source tree and the collector\<close>

text \<open>
  The tree under the source root: a file, which \<^verbatim>\<open>shutil.copy2\<close> can read or not, or
  a directory, which can be opened or not, with its entries in the order
  \<^verbatim>\<open>os.scandir\<close> gives them. A directory that can be opened can be listed and
  searched for an entry; one that cannot (mode 000) can be neither, though it is
  still seen to be a directory. The output folder lies outside the directories a
  run reads, so a run does not change what it reads.
\<close>

datatype node = File bool | Dir bool "(string \<times> node) list"

datatype error = RuntimeError | PermissionError | FileNotFoundError | NotADirectoryError

definition isdir :: "node option \<Rightarrow> bool" where
  \<comment> \<open>\<^verbatim>\<open>os.path.isdir(path)\<close>, for what the path names (\<open>None\<close>: nothing).\<close>
  "isdir p = (case p of Some (Dir listable entries) \<Rightarrow> True | _ \<Rightarrow> False)"

definition scandir :: "node option \<Rightarrow> error + (string \<times> node) list" where
  \<comment> \<open>\<^verbatim>\<open>os.scandir(path)\<close>: the entries, or the error it raises.\<close>
  "scandir p =
     (case p of
        None \<Rightarrow> Inl FileNotFoundError
      | Some (File readable) \<Rightarrow> Inl NotADirectoryError
      | Some (Dir listable entries) \<Rightarrow> if listable then Inr entries else Inl PermissionError)"

fun is_dir :: "node \<Rightarrow> bool" where
  "is_dir (Dir listable entries) = True"
| "is_dir (File readable) = False"

fun files_of :: "(string \<times> node) list \<Rightarrow> (string \<times> bool) list" where
  \<comment> \<open>The entries of a directory that are not directories, with their names.\<close>
  "files_of [] = []"
| "files_of ((fname, File readable) # entries) = (fname, readable) # files_of entries"
| "files_of ((dname, Dir listable sub) # entries) = files_of entries"

fun walk :: "node \<Rightarrow> (string \<times> bool) list"
  and walk_dirs :: "(string \<times> node) list \<Rightarrow> (string \<times> bool) list" where
  \<comment> \<open>The files \<^verbatim>\<open>os.walk(root)\<close> yields, in its order: those of the directory, then
      those of each subdirectory in turn. A directory that cannot be listed yields
      nothing (\<^verbatim>\<open>os.walk\<close> ignores the error).\<close>
  "walk (File readable) = []"
| "walk (Dir listable entries) = (if listable then files_of entries @ walk_dirs entries else [])"
| "walk_dirs [] = []"
| "walk_dirs ((name, n) # entries) = walk n @ walk_dirs entries"

text \<open>
  What a run does to the world outside the tree: the paths that exist, the
  calls of \<^verbatim>\<open>shutil.copy2\<close> (the name of the file copied and its destination) and
  the calls of \<^verbatim>\<open>add_filename_to_docx_header\<close> (the destination and the label).
\<close>

record world =
  fs_paths :: "string list"
  copy2_calls :: "(string \<times> string) list"
  header_calls :: "(string \<times> string) list"

type_synonym outcome = "(error + nat \<times> nat) \<times> world"

definition safe_affix :: "string option \<Rightarrow> string" where
  \<comment> \<open>\<^verbatim>\<open>sanitize_filename(prefix).strip() if prefix and prefix.strip() else ""\<close>\<close>
  "safe_affix affix =
     (case affix of
        None \<Rightarrow> []
      | Some s \<Rightarrow> if s \<noteq> [] \<and> strip s \<noteq> [] then strip (sanitize_filename s) else [])"

definition base_name_of :: "string option \<Rightarrow> string \<Rightarrow> string option \<Rightarrow> string" where
  "base_name_of prefix student_name suffix =
     (let safe_prefix = safe_affix prefix;
          safe_suffix = safe_affix suffix
      in if safe_prefix \<noteq> [] \<and> safe_suffix \<noteq> []
           then safe_prefix @ '' '' @ student_name @ '' '' @ safe_suffix
         else if safe_prefix \<noteq> [] then safe_prefix @ '' '' @ student_name
         else if safe_suffix \<noteq> [] then student_name @ '' '' @ safe_suffix
         else student_name)"

fun path_parts :: "string \<Rightarrow> string \<Rightarrow> string list" where
  \<comment> \<open>The components of a path, those between its separators that are not empty;
      the second argument holds the component being read.\<close>
  "path_parts [] part = (if part = [] then [] else [part])"
| "path_parts (c # cs) part =
     (if c = CHR ''/'' then (if part = [] then path_parts cs [] else part # path_parts cs [])
      else path_parts cs (part @ [c]))"

fun step :: "string \<Rightarrow> node list \<Rightarrow> node list option" where
  \<comment> \<open>One component of a path looked up in a directory, which stands first in the
      list with the directories above it behind, nearest first. The directory must
      be one that can be searched; \<^verbatim>\<open>..\<close> at the root of the file system stays there.\<close>
  "step name [] = None"
| "step name (File readable # up) = None"
| "step name (Dir accessible entries # up) =
     (if \<not> accessible then None
      else if name = ''.'' then Some (Dir accessible entries # up)
      else if name = ''..'' then Some (if up = [] then [Dir accessible entries] else up)
      else (case map_of entries name of
              None \<Rightarrow> None
            | Some n \<Rightarrow> Some (n # Dir accessible entries # up)))"

fun steps :: "string list \<Rightarrow> node list \<Rightarrow> node list option" where
  "steps [] stack = Some stack"
| "steps (name # names) stack =
     (case step name stack of None \<Rightarrow> None | Some stack' \<Rightarrow> steps names stack')"

definition named_by :: "node list \<Rightarrow> string \<Rightarrow> node option" where
  \<comment> \<open>What \<^verbatim>\<open>os.path.join(directory, path)\<close> names, for the directory that stands first
      in the list: an absolute \<open>path\<close> is resolved from the root of the file system,
      the last of the list, any other from the directory itself.\<close>
  "named_by stack path =
     (if stack = [] then None
      else
        let start = (if path \<noteq> [] \<and> hd path = CHR ''/'' then [last stack] else stack)
        in case steps (path_parts path []) start of
             Some (n # up) \<Rightarrow> Some n
           | _ \<Rightarrow> None)"

definition roots_to_walk :: "node list \<Rightarrow> string option \<Rightarrow> node \<Rightarrow> node list option" where
  \<comment> \<open>The roots to walk for one student directory; \<open>None\<close> is the \<^verbatim>\<open>continue\<close> of
      the student whose assignment folder is missing. An absent and an empty
      \<open>assignment_subfolder\<close> are both false in \<^verbatim>\<open>if assignment_subfolder:\<close>. \<open>parents\<close>
      are the directories above the student directory, the source root first.\<close>
  "roots_to_walk parents assignment_subfolder student_dir =
     (case assignment_subfolder of
        None \<Rightarrow> Some [student_dir]
      | Some sub \<Rightarrow>
          if sub = [] then Some [student_dir]
          else (case named_by (student_dir # parents) sub of
                  Some (Dir accessible entries) \<Rightarrow> Some [Dir accessible entries]
                | _ \<Rightarrow> None))"

definition copy_file ::
  "string \<Rightarrow> bool \<Rightarrow> string \<Rightarrow> string \<times> bool \<Rightarrow> nat \<times> nat \<Rightarrow> world \<Rightarrow> outcome" where
  \<comment> \<open>The body of the innermost loop, for one file of the walk.\<close>
  "copy_file base_name add_to_header output file totals w =
     (case file of (fname, readable) \<Rightarrow>
      case totals of (total_found, total_copied) \<Rightarrow>
        let total_found = total_found + 1;
            ext = snd (splitext fname);
            dest_path = choose_unique_filename base_name ext output (fs_paths w)
        in if \<not> readable then (Inl PermissionError, w)
           else
             let w = w\<lparr>fs_paths := dest_path # fs_paths w,
                       copy2_calls := copy2_calls w @ [(fname, dest_path)]\<rparr>;
                 w = (if add_to_header \<and> lower ext = ''.docx''
                      then w\<lparr>header_calls := header_calls w @ [(dest_path, base_name)]\<rparr>
                      else w)
             in (Inr (total_found, total_copied + 1), w))"

fun copy_files ::
  "string \<Rightarrow> bool \<Rightarrow> string \<Rightarrow> (string \<times> bool) list \<Rightarrow> nat \<times> nat \<Rightarrow> world \<Rightarrow> outcome" where
  "copy_files base_name add_to_header output [] totals w = (Inr totals, w)"
| "copy_files base_name add_to_header output (file # files) totals w =
     (case copy_file base_name add_to_header output file totals w of
        (Inl e, w') \<Rightarrow> (Inl e, w')
      | (Inr totals', w') \<Rightarrow> copy_files base_name add_to_header output files totals' w')"

definition collect_student ::
  "node list \<Rightarrow> string \<Rightarrow> string option \<Rightarrow> string option \<Rightarrow> string option \<Rightarrow> bool \<Rightarrow>
   string \<times> node \<Rightarrow> nat \<times> nat \<Rightarrow> world \<Rightarrow> outcome" where
  \<comment> \<open>The body of the loop over the entries of the source root.\<close>
  "collect_student parents output assignment_subfolder prefix suffix add_to_header entry
     totals w =
     (case entry of (name, student_dir) \<Rightarrow>
        if \<not> is_dir student_dir then (Inr totals, w)
        else
          let student_name = sanitize_filename name;
              base_name = base_name_of prefix student_name suffix
          in case roots_to_walk parents assignment_subfolder student_dir of
               None \<Rightarrow> (Inr totals, w)
             | Some roots \<Rightarrow>
                 copy_files base_name add_to_header output (concat (map walk roots)) totals w)"

fun collect_students ::
  "node list \<Rightarrow> string \<Rightarrow> string option \<Rightarrow> string option \<Rightarrow> string option \<Rightarrow> bool \<Rightarrow>
   (string \<times> node) list \<Rightarrow> nat \<times> nat \<Rightarrow> world \<Rightarrow> outcome" where
  "collect_students parents output assignment_subfolder prefix suffix add_to_header []
     totals w = (Inr totals, w)"
| "collect_students parents output assignment_subfolder prefix suffix add_to_header
     (entry # entries) totals w =
     (case collect_student parents output assignment_subfolder prefix suffix add_to_header
             entry totals w of
        (Inl e, w') \<Rightarrow> (Inl e, w')
      | (Inr totals', w') \<Rightarrow>
          collect_students parents output assignment_subfolder prefix suffix add_to_header
            entries totals' w')"

definition copy_from_local_folder ::
  "node list \<Rightarrow> node option \<Rightarrow> string \<Rightarrow> string option \<Rightarrow> string option \<Rightarrow> string option \<Rightarrow>
   bool \<Rightarrow> world \<Rightarrow> outcome" where
  \<comment> \<open>\<open>turned_in\<close> is what \<^verbatim>\<open>turned_in_path\<close> names: nothing, a file or a directory;
      \<open>ancestors\<close> are the directories above it, nearest first, up to the root of the file
      system (none when the source root is that root). They are read only when
      \<open>assignment_subfolder\<close> climbs out of the source root or is an absolute path.
      An error of the first \<^verbatim>\<open>os.scandir\<close> is not caught.\<close>
  "copy_from_local_folder ancestors turned_in output assignment_subfolder prefix suffix
     add_to_header w =
     (if \<not> isdir turned_in then (Inl RuntimeError, w)
      else case scandir turned_in of
             Inl e \<Rightarrow> (Inl e, w)
           | Inr entries \<Rightarrow>
               collect_students (case turned_in of None \<Rightarrow> ancestors | Some root \<Rightarrow> root # ancestors)
                 output assignment_subfolder prefix suffix add_to_header entries (0, 0) w)"

section \<open>Assignment discovery\<close>

fun subdir_names :: "(string \<times> node) list \<Rightarrow> string list" where
  \<comment> \<open>The names of the entries of a directory that are directories.\<close>
  "subdir_names [] = []"
| "subdir_names ((fname, File readable) # entries) = subdir_names entries"
| "subdir_names ((dname, Dir listable sub) # entries) = dname # subdir_names entries"

fun scan_students :: "(string \<times> node) list \<Rightarrow> string set \<Rightarrow> string set" where
  \<comment> \<open>The loop over the entries of the root; a student directory that cannot be
      listed raises \<^verbatim>\<open>PermissionError\<close> before any name is added, and the loop goes on.\<close>
  "scan_students [] names = names"
| "scan_students ((fname, File readable) # entries) names = scan_students entries names"
| "scan_students ((student, Dir listable sub) # entries) names =
     (if listable then scan_students entries (names \<union> set (subdir_names sub))
      else scan_students entries names)"

definition collect_assignment_subfolders :: "node option \<Rightarrow> error + string list" where
  "collect_assignment_subfolders turned_in =
     (if \<not> isdir turned_in then Inr []
      else case scandir turned_in of
             Inl e \<Rightarrow> Inl e
           | Inr entries \<Rightarrow> Inr (sorted_list_of_set (scan_students entries {})))"

section \<open>Notions used to state the properties\<close>

text \<open>
  The candidates in the order the resolver tries them: \<^verbatim>\<open>base+ext\<close> first, then
  \<^verbatim>\<open>base (2)+ext\<close>, \<^verbatim>\<open>base (3)+ext\<close> and so on.
\<close>

definition nth_candidate :: "string \<Rightarrow> string \<Rightarrow> nat \<Rightarrow> string" where
  "nth_candidate base_name ext k =
     (if k \<le> 1 then base_name @ ext else base_name @ '' ('' @ str_nat k @ '')'' @ ext)"

text \<open>
  C4 (the extension of a copied file), as the claim words it: the part of the file
  name from its last dot on, or nothing when the name has no dot.
\<close>

definition ext_from_last_dot :: "string \<Rightarrow> string" where
  "ext_from_last_dot fname =
     (if CHR ''.'' \<in> set fname then drop (nat (rfind (CHR ''.'') fname)) fname else [])"

fun join_spaces :: "string list \<Rightarrow> string" where
  \<comment> \<open>The parts, in their order, with one space between two of them.\<close>
  "join_spaces [] = []"
| "join_spaces [part] = part"
| "join_spaces (part # parts) = part @ '' '' @ join_spaces parts"

definition join_non_empty :: "string list \<Rightarrow> string" where
  "join_non_empty parts = join_spaces (filter (\<lambda>part. part \<noteq> []) parts)"

text \<open>
  C7 (the base name), as the claim words it: the prefix and the suffix are each
  sanitized and trimmed (an absent one is an empty part), and the parts that are not
  empty are joined with single spaces, the student's name between them.
\<close>

definition spec_part :: "string option \<Rightarrow> string" where
  "spec_part affix = (case affix of None \<Rightarrow> [] | Some s \<Rightarrow> strip (sanitize_filename s))"

definition spec_base_name :: "string option \<Rightarrow> string \<Rightarrow> string option \<Rightarrow> string" where
  "spec_base_name prefix student_name suffix =
     join_non_empty [spec_part prefix, student_name, spec_part suffix]"

definition header_calls_match :: "bool \<Rightarrow> world \<Rightarrow> bool" where
  \<comment> \<open>The header calls are those of the copies whose extension is \<^verbatim>\<open>.docx\<close> in any
      case of letters, when stamping is enabled, and none otherwise.\<close>
  "header_calls_match add_to_header w =
     (map fst (header_calls w) =
      map snd (filter (\<lambda>(fname, dest_path).
                         add_to_header \<and> lower (snd (splitext fname)) = ''.docx'')
                 (copy2_calls w)))"




section \<open>Properties of the name sanitizer\<close>

text \<open>
  What the sanitizer does guarantee: the sanitized name holds no reserved character,
  no underscore and no two consecutive spaces, is not empty, does not start with
  white space and does not end in a dot. It can end in white space, and only then
  does a second pass change it.
\<close>

lemma sanitize_filename_not_empty: "sanitize_filename name \<noteq> []"
  by (simp add: sanitize_filename_def Let_def)

lemma rev_dropWhile_rev_prefix:
  "rev (dropWhile P (rev z)) @ rev (takeWhile P (rev z)) = z"
proof -
  have "rev (takeWhile P (rev z) @ dropWhile P (rev z)) = z" by simp
  then show ?thesis by (simp only: rev_append)
qed

lemma hd_rev_dropWhile_rev:
  assumes "rev (dropWhile P (rev z)) \<noteq> []"
  shows "hd (rev (dropWhile P (rev z))) = hd z"
proof -
  have "hd (rev (dropWhile P (rev z)) @ rev (takeWhile P (rev z))) = hd (rev (dropWhile P (rev z)))"
    using assms by (rule hd_append2)
  then show ?thesis by (simp only: rev_dropWhile_rev_prefix)
qed

lemma hd_strip:
  assumes "strip y \<noteq> []"
  shows "\<not> isspace (hd (strip y))"
proof -
  from assms have "hd (strip y) = hd (lstrip y)"
    unfolding strip_def rstrip_def by (rule hd_rev_dropWhile_rev)
  moreover from assms have "lstrip y \<noteq> []"
    by (auto simp: strip_def rstrip_def)
  then have "\<not> isspace (hd (lstrip y))"
    unfolding lstrip_def by (rule hd_dropWhile)
  ultimately show ?thesis by simp
qed

lemma strip_not_empty:
  assumes "x \<noteq> []" and "\<not> isspace (hd x)"
  shows "strip x \<noteq> []"
proof -
  from assms have l: "lstrip x = x"
    by (cases x) (simp_all add: lstrip_def)
  from assms have "hd x \<in> set (rev x)" by simp
  with assms(2) have "dropWhile isspace (rev x) \<noteq> []"
    by (auto simp: dropWhile_eq_Nil_conv)
  with l show ?thesis by (simp add: strip_def rstrip_def)
qed

lemma strip_unnamed: "strip ''unnamed'' = ''unnamed''"
  by code_simp

lemma strip_sanitize_filename_not_empty: "strip (sanitize_filename s) \<noteq> []"
proof -
  define y where "y = collapse_spaces
    (map (\<lambda>c. if c = CHR ''_'' then CHR '' '' else c)
       (map (\<lambda>c. if c \<in> set invalid then CHR '' '' else c) s))"
  define x where "x = rstrip_chars ''.'' (strip y)"
  have san: "sanitize_filename s = (if x = [] then ''unnamed'' else x)"
    by (simp add: sanitize_filename_def Let_def x_def y_def)
  show ?thesis
  proof (cases "x = []")
    case True
    with san show ?thesis by (simp add: strip_unnamed)
  next
    case False
    then have "hd x = hd (strip y)"
      unfolding x_def rstrip_chars_def by (rule hd_rev_dropWhile_rev)
    moreover from False have "strip y \<noteq> []"
      by (auto simp: x_def rstrip_chars_def)
    ultimately have "\<not> isspace (hd x)" using hd_strip by simp
    with False san show ?thesis by (simp add: strip_not_empty)
  qed
qed

lemma set_replace_double_space: "set (replace_double_space s) \<subseteq> set s"
  by (induction s rule: replace_double_space.induct) auto

lemma set_collapse_spaces: "set (collapse_spaces s) \<subseteq> set s"
proof (induction s rule: collapse_spaces.induct)
  case (1 s)
  show ?case
  proof (cases "contains_double_space s")
    case True
    with 1 set_replace_double_space [of s] show ?thesis
      by (subst collapse_spaces.simps) auto
  next
    case False
    then show ?thesis by (subst collapse_spaces.simps) simp
  qed
qed

lemma collapse_spaces_no_double: "\<not> contains_double_space (collapse_spaces s)"
proof (induction s rule: collapse_spaces.induct)
  case (1 s)
  show ?case
  proof (cases "contains_double_space s")
    case True
    with 1 show ?thesis by (subst collapse_spaces.simps) simp
  next
    case False
    then show ?thesis by (subst collapse_spaces.simps) simp
  qed
qed

lemma collapse_spaces_id: "\<not> contains_double_space s \<Longrightarrow> collapse_spaces s = s"
  by (subst collapse_spaces.simps) simp

lemma contains_double_space_append1:
  "contains_double_space xs \<Longrightarrow> contains_double_space (xs @ ys)"
  by (induction xs rule: contains_double_space.induct) auto

lemma contains_double_space_append2:
  "contains_double_space ys \<Longrightarrow> contains_double_space (xs @ ys)"
proof (induction xs)
  case Nil
  then show ?case by simp
next
  case (Cons x xs)
  then have "contains_double_space (xs @ ys)" by simp
  then show ?case by (cases "xs @ ys") auto
qed

lemma no_double_rev_dropWhile_rev:
  assumes "\<not> contains_double_space z"
  shows "\<not> contains_double_space (rev (dropWhile P (rev z)))"
proof
  assume "contains_double_space (rev (dropWhile P (rev z)))"
  then have "contains_double_space (rev (dropWhile P (rev z)) @ rev (takeWhile P (rev z)))"
    by (rule contains_double_space_append1)
  with assms show False by (simp only: rev_dropWhile_rev_prefix)
qed

lemma no_double_dropWhile:
  assumes "\<not> contains_double_space z"
  shows "\<not> contains_double_space (dropWhile P z)"
proof
  assume "contains_double_space (dropWhile P z)"
  then have "contains_double_space (takeWhile P z @ dropWhile P z)"
    by (rule contains_double_space_append2)
  with assms show False by simp
qed

lemma set_rev_dropWhile_rev: "set (rev (dropWhile P (rev z))) \<subseteq> set z"
  using set_dropWhileD [of _ P "rev z"] by auto

lemma last_rev_dropWhile_rev:
  assumes "rev (dropWhile P (rev z)) \<noteq> []"
  shows "\<not> P (last (rev (dropWhile P (rev z))))"
proof -
  from assms have "dropWhile P (rev z) \<noteq> []" by simp
  then have "\<not> P (hd (dropWhile P (rev z)))" by (rule hd_dropWhile)
  with assms show ?thesis by (simp add: last_rev)
qed

lemma sanitize_filename_safe:
  "set (sanitize_filename s) \<inter> set invalid = {} \<and>
   CHR ''_'' \<notin> set (sanitize_filename s) \<and>
   \<not> contains_double_space (sanitize_filename s) \<and>
   sanitize_filename s \<noteq> [] \<and>
   \<not> isspace (hd (sanitize_filename s)) \<and>
   last (sanitize_filename s) \<noteq> CHR ''.''"
proof -
  define m where "m = map (\<lambda>c. if c = CHR ''_'' then CHR '' '' else c)
       (map (\<lambda>c. if c \<in> set invalid then CHR '' '' else c) s)"
  define y where "y = collapse_spaces m"
  define x where "x = rstrip_chars ''.'' (strip y)"
  have san: "sanitize_filename s = (if x = [] then ''unnamed'' else x)"
    by (simp add: sanitize_filename_def Let_def x_def y_def m_def)
  have m: "set m \<inter> set invalid = {} \<and> CHR ''_'' \<notin> set m"
    by (auto simp: m_def invalid_def)
  have "set x \<subseteq> set (strip y)"
    unfolding x_def rstrip_chars_def by (rule set_rev_dropWhile_rev)
  also have "\<dots> \<subseteq> set (lstrip y)"
    unfolding strip_def rstrip_def by (rule set_rev_dropWhile_rev)
  also have "\<dots> \<subseteq> set y"
    unfolding lstrip_def using set_dropWhileD by fastforce
  also have "\<dots> \<subseteq> set m"
    unfolding y_def by (rule set_collapse_spaces)
  finally have sub: "set x \<subseteq> set m" .
  have "\<not> contains_double_space y"
    unfolding y_def by (rule collapse_spaces_no_double)
  then have "\<not> contains_double_space (lstrip y)"
    unfolding lstrip_def by (rule no_double_dropWhile)
  then have "\<not> contains_double_space (strip y)"
    unfolding strip_def rstrip_def by (rule no_double_rev_dropWhile_rev)
  then have nd: "\<not> contains_double_space x"
    unfolding x_def rstrip_chars_def by (rule no_double_rev_dropWhile_rev)
  show ?thesis
  proof (cases "x = []")
    case True
    with san have "sanitize_filename s = ''unnamed''" by simp
    then show ?thesis by (simp add: invalid_def isspace_def)
  next
    case False
    then have "hd x = hd (strip y)"
      unfolding x_def rstrip_chars_def by (rule hd_rev_dropWhile_rev)
    moreover from False have "strip y \<noteq> []"
      by (auto simp: x_def rstrip_chars_def)
    ultimately have h: "\<not> isspace (hd x)" using hd_strip by simp
    from False have "\<not> (last x \<in> set ''.'')"
      unfolding x_def rstrip_chars_def by (rule last_rev_dropWhile_rev)
    then have l: "last x \<noteq> CHR ''.''" by simp
    from False san have "sanitize_filename s = x" by simp
    with m sub nd False h l show ?thesis by auto
  qed
qed

lemma sanitize_filename_idem_if:
  assumes "\<not> isspace (last (sanitize_filename s))"
  shows "sanitize_filename (sanitize_filename s) = sanitize_filename s"
proof -
  define t where "t = sanitize_filename s"
  from sanitize_filename_safe [of s] have t:
    "set t \<inter> set invalid = {}" "CHR ''_'' \<notin> set t" "\<not> contains_double_space t"
    "t \<noteq> []" "\<not> isspace (hd t)" "last t \<noteq> CHR ''.''"
    by (simp_all add: t_def)
  from t(1) have m1: "map (\<lambda>c. if c \<in> set invalid then CHR '' '' else c) t = t"
    by (intro map_idI) auto
  from t(2) have m2: "map (\<lambda>c. if c = CHR ''_'' then CHR '' '' else c) t = t"
    by (intro map_idI) auto
  from t(3) have c: "collapse_spaces t = t" by (rule collapse_spaces_id)
  from t(4,5) have l: "lstrip t = t"
    by (cases t) (simp_all add: lstrip_def)
  from assms t(4) have r: "rstrip t = t"
    by (cases t rule: rev_cases) (simp_all add: rstrip_def t_def)
  from t(4,6) have d: "rstrip_chars ''.'' t = t"
    by (cases t rule: rev_cases) (simp_all add: rstrip_chars_def)
  have "sanitize_filename t = t"
    using t(4) by (simp add: sanitize_filename_def Let_def m1 m2 c strip_def l r d)
  then show ?thesis by (simp add: t_def)
qed

text \<open>
  C1 (the sanitized name has no reserved character, no two consecutive spaces, no
  final dot or space, and is not empty). The sanitizer trims the white space first
  and the final dots second, so a space that stood before the final dots is left at
  the end: the name \<^verbatim>\<open>"a ."\<close> is sanitized to \<^verbatim>\<open>"a "\<close>, which ends in a space.
\<close>

theorem sanitize_filename_leaves_final_space:
  "sanitize_filename ''a .'' = ''a '' \<and> last (sanitize_filename ''a .'') = CHR '' ''"
  by code_simp

text \<open>
  C2 (sanitizing twice gives what sanitizing once gives). The space left at the end of
  the sanitized \<^verbatim>\<open>"a ."\<close> is trimmed by a second pass: once gives \<^verbatim>\<open>"a "\<close>, twice
  gives \<^verbatim>\<open>"a"\<close>.
\<close>

theorem sanitize_filename_second_pass_differs:
  "sanitize_filename (sanitize_filename ''a .'') = ''a'' \<and>
   sanitize_filename (sanitize_filename ''a .'') \<noteq> sanitize_filename ''a .''"
  by code_simp

section \<open>Properties of the collector\<close>

lemma copy_file_counts:
  assumes "copy_file base_name add_to_header output item (found, copied) w =
             (Inr (found', copied'), w')"
  shows "found' = found + 1 \<and> copied' = copied + 1 \<and>
         length (copy2_calls w') = length (copy2_calls w) + 1"
  using assms
  by (cases item) (auto simp: copy_file_def Let_def split: if_splits)

lemma copy_files_counts:
  assumes "copy_files base_name add_to_header output items (found, copied) w =
             (Inr (found', copied'), w')"
  shows "\<exists>k. found' = found + k \<and> copied' = copied + k \<and>
             length (copy2_calls w') = length (copy2_calls w) + k"
  using assms
proof (induction items arbitrary: found copied w)
  case Nil
  then show ?case by simp
next
  case (Cons item items)
  obtain r w1 where step:
    "copy_file base_name add_to_header output item (found, copied) w = (r, w1)"
    by (cases "copy_file base_name add_to_header output item (found, copied) w")
  show ?case
  proof (cases r)
    case (Inl e)
    with Cons.prems step show ?thesis by simp
  next
    case (Inr totals)
    obtain f1 c1 where totals: "totals = (f1, c1)" by (cases totals)
    from step Inr totals have one: "f1 = found + 1 \<and> c1 = copied + 1 \<and>
        length (copy2_calls w1) = length (copy2_calls w) + 1"
      using copy_file_counts by simp
    from Cons.prems step Inr totals
    have "copy_files base_name add_to_header output items (f1, c1) w1 =
            (Inr (found', copied'), w')"
      by simp
    from Cons.IH [OF this] obtain k where
      "found' = f1 + k \<and> copied' = c1 + k \<and> length (copy2_calls w') = length (copy2_calls w1) + k"
      by blast
    with one have "found' = found + (k + 1) \<and> copied' = copied + (k + 1) \<and>
        length (copy2_calls w') = length (copy2_calls w) + (k + 1)"
      by simp
    then show ?thesis by blast
  qed
qed

lemma collect_student_counts:
  assumes "collect_student parents output assignment_subfolder prefix suffix add_to_header entry
             (found, copied) w = (Inr (found', copied'), w')"
  shows "\<exists>k. found' = found + k \<and> copied' = copied + k \<and>
             length (copy2_calls w') = length (copy2_calls w) + k"
proof (cases entry)
  case (Pair name student_dir)
  show ?thesis
  proof (cases "is_dir student_dir \<and> roots_to_walk parents assignment_subfolder student_dir \<noteq> None")
    case False
    with assms Pair have "found' = found \<and> copied' = copied \<and> w' = w"
      by (auto simp: collect_student_def Let_def split: if_splits option.splits)
    then show ?thesis by simp
  next
    case True
    then obtain roots where "roots_to_walk parents assignment_subfolder student_dir = Some roots"
      by blast
    with assms Pair True show ?thesis
      by (auto simp: collect_student_def Let_def dest: copy_files_counts)
  qed
qed

lemma collect_students_counts:
  assumes "collect_students parents output assignment_subfolder prefix suffix add_to_header entries
             (found, copied) w = (Inr (found', copied'), w')"
  shows "\<exists>k. found' = found + k \<and> copied' = copied + k \<and>
             length (copy2_calls w') = length (copy2_calls w) + k"
  using assms
proof (induction entries arbitrary: found copied w)
  case Nil
  then show ?case by simp
next
  case (Cons entry entries)
  obtain r w1 where step: "collect_student parents output assignment_subfolder prefix suffix
      add_to_header entry (found, copied) w = (r, w1)"
    by (cases "collect_student parents output assignment_subfolder prefix suffix
      add_to_header entry (found, copied) w")
  show ?case
  proof (cases r)
    case (Inl e)
    with Cons.prems step show ?thesis by simp
  next
    case (Inr totals)
    obtain f1 c1 where totals: "totals = (f1, c1)" by (cases totals)
    from step Inr totals obtain j where one: "f1 = found + j \<and> c1 = copied + j \<and>
        length (copy2_calls w1) = length (copy2_calls w) + j"
      using collect_student_counts by blast
    from Cons.prems step Inr totals
    have "collect_students parents output assignment_subfolder prefix suffix add_to_header entries
            (f1, c1) w1 = (Inr (found', copied'), w')"
      by simp
    from Cons.IH [OF this] obtain k where
      "found' = f1 + k \<and> copied' = c1 + k \<and> length (copy2_calls w') = length (copy2_calls w1) + k"
      by blast
    with one have "found' = found + (j + k) \<and> copied' = copied + (j + k) \<and>
        length (copy2_calls w') = length (copy2_calls w) + (j + k)"
      by simp
    then show ?thesis by blast
  qed
qed

lemma rfind_absent:
  assumes "c \<notin> set p"
  shows "rfind c p = - 1"
proof -
  from assms have none: "dropWhile (\<lambda>x. x \<noteq> c) (rev p) = []"
    by (auto simp: dropWhile_eq_Nil_conv)
  show ?thesis unfolding rfind_def none by simp
qed

lemma rfind_present:
  assumes "c \<in> set p"
  shows "0 \<le> rfind c p \<and> nat (rfind c p) < length p \<and> p ! nat (rfind c p) = c"
proof -
  from assms have ne: "dropWhile (\<lambda>x. x \<noteq> c) (rev p) \<noteq> []"
    by (simp add: dropWhile_eq_Nil_conv)
  then obtain front where dw: "dropWhile (\<lambda>x. x \<noteq> c) (rev p) = c # front"
    by (metis (mono_tags, lifting) hd_dropWhile list.exhaust list.sel(1))
  then have r: "rfind c p = int (length front)" by (simp add: rfind_def)
  have "rev p = takeWhile (\<lambda>x. x \<noteq> c) (rev p) @ c # front"
    using dw by (metis takeWhile_dropWhile_id)
  then have "rev (rev p) = rev (takeWhile (\<lambda>x. x \<noteq> c) (rev p) @ c # front)"
    by simp
  then have p: "p = rev front @ c # rev (takeWhile (\<lambda>x. x \<noteq> c) (rev p))"
    by simp
  have "p ! length front = c"
    by (subst p) (simp add: nth_append)
  moreover have "length front < length p" by (subst p) simp
  ultimately show ?thesis using r by simp
qed

lemma skip_leading_dots_eq:
  "dotIndex \<le> length p \<Longrightarrow>
   skip_leading_dots p filenameIndex dotIndex =
     (if \<exists>k. filenameIndex \<le> k \<and> k < dotIndex \<and> p ! k \<noteq> CHR ''.''
      then (take dotIndex p, drop dotIndex p) else (p, []))"
proof (induction p filenameIndex dotIndex rule: skip_leading_dots.induct)
  case (1 p filenameIndex dotIndex)
  show ?case
  proof (cases "filenameIndex < dotIndex")
    case False
    then show ?thesis
      by (auto simp: skip_leading_dots.simps [of p filenameIndex dotIndex])
  next
    case True
    show ?thesis
    proof (cases "p ! filenameIndex \<noteq> CHR ''.''")
      case True
      with \<open>filenameIndex < dotIndex\<close> show ?thesis
        by (auto simp: skip_leading_dots.simps [of p filenameIndex dotIndex])
    next
      case False
      have "(\<exists>k. filenameIndex \<le> k \<and> k < dotIndex \<and> p ! k \<noteq> CHR ''.'') =
            (\<exists>k. filenameIndex + 1 \<le> k \<and> k < dotIndex \<and> p ! k \<noteq> CHR ''.'')"
        using False by (metis Suc_eq_plus1 Suc_leI le_neq_implies_less Suc_leD)
      with 1 True False show ?thesis
        by (simp add: skip_leading_dots.simps [of p filenameIndex dotIndex])
    qed
  qed
qed

lemma take_has_other:
  "i \<le> length p \<Longrightarrow> (\<exists>k. 0 \<le> k \<and> k < i \<and> p ! k \<noteq> c) = (\<exists>x \<in> set (take i p). x \<noteq> c)"
proof
  assume "\<exists>k. 0 \<le> k \<and> k < i \<and> p ! k \<noteq> c"
  then obtain k where k: "k < i" "p ! k \<noteq> c" by blast
  assume "i \<le> length p"
  with k have "take i p ! k \<in> set (take i p)" by (intro nth_mem) simp
  with k show "\<exists>x \<in> set (take i p). x \<noteq> c" by auto
next
  assume "\<exists>x \<in> set (take i p). x \<noteq> c"
  then obtain x where x: "x \<in> set (take i p)" "x \<noteq> c" by blast
  then obtain k where "k < length (take i p)" "take i p ! k = x"
    by (auto simp: in_set_conv_nth)
  with x show "\<exists>k. 0 \<le> k \<and> k < i \<and> p ! k \<noteq> c" by auto
qed

lemma splitext_of_file_name:
  assumes "CHR ''/'' \<notin> set fname"
  shows "snd (splitext fname) =
           (let i = nat (rfind (CHR ''.'') fname)
            in if \<exists>c \<in> set (take i fname). c \<noteq> CHR ''.'' then drop i fname else [])"
proof (cases "CHR ''.'' \<in> set fname")
  case False
  then show ?thesis
    using assms by (simp add: splitext_def rfind_absent)
next
  case True
  from rfind_present [OF True] have i: "0 \<le> rfind (CHR ''.'') fname"
    "nat (rfind (CHR ''.'') fname) \<le> length fname" by simp_all
  show ?thesis
    using assms i take_has_other [OF i(2), of "CHR ''.''"]
    by (simp add: splitext_def rfind_absent skip_leading_dots_eq Let_def)
qed

text \<open>
  C4 fails on a name whose only dots lead it. \<^verbatim>\<open>os.path.splitext\<close> gives \<^verbatim>\<open>".bashrc"\<close>
  no extension, so the file \<^verbatim>\<open>.bashrc\<close> of the student \<^verbatim>\<open>Jane\<close> is copied to
  \<^verbatim>\<open>out/Jane\<close>, where the claim's extension \<^verbatim>\<open>".bashrc"\<close> would give \<^verbatim>\<open>out/Jane.bashrc\<close>.
\<close>

theorem dotfile_extension_counterexample:
  "snd (splitext ''.bashrc'') \<noteq> ext_from_last_dot ''.bashrc'' \<and>
   ext_from_last_dot ''.bashrc'' = ''.bashrc'' \<and>
   copy2_calls (snd (copy_from_local_folder
       [] (Some (Dir True [(''Jane'', Dir True [(''.bashrc'', File True)])]))
       ''out'' None None None False
       \<lparr>fs_paths = [], copy2_calls = [], header_calls = []\<rparr>)) =
     [(''.bashrc'', ''out/Jane'')]"
  by code_simp

text \<open>
  C4, amended. For a file the collector copies, whose name (a directory entry) has
  no separator, the destination is resolved with this extension: the part of the
  name from its last dot on, if some character before that dot is not a dot;
  otherwise nothing (no dot at all, or only leading dots as in \<^verbatim>\<open>.bashrc\<close>).
\<close>

theorem copy_file_extension:
  assumes "CHR ''/'' \<notin> set fname"
  shows "copy2_calls (snd (copy_file base_name add_to_header output (fname, True) totals w)) =
           copy2_calls w @
             [(fname,
               choose_unique_filename base_name
                 (let i = nat (rfind (CHR ''.'') fname)
                  in if \<exists>c \<in> set (take i fname). c \<noteq> CHR ''.'' then drop i fname else [])
                 output (fs_paths w))]"
proof -
  obtain total_found total_copied where "totals = (total_found, total_copied)"
    by (cases totals)
  then show ?thesis
    unfolding splitext_of_file_name [OF assms, symmetric]
    by (simp add: copy_file_def Let_def)
qed

theorem copy_file_extension_witness:
  "CHR ''/'' \<notin> set ''notes.tar.gz'' \<and>
   copy2_calls (snd (copy_file ''Jane Doe'' False ''out'' (''notes.tar.gz'', True) (0, 0)
       \<lparr>fs_paths = [], copy2_calls = [], header_calls = []\<rparr>)) =
     [(''notes.tar.gz'', ''out/Jane Doe.gz'')] \<and>
   CHR ''/'' \<notin> set ''..profile'' \<and>
   copy2_calls (snd (copy_file ''Jane Doe'' False ''out'' (''..profile'', True) (0, 0)
       \<lparr>fs_paths = [], copy2_calls = [], header_calls = []\<rparr>)) =
     [(''..profile'', ''out/Jane Doe'')]"
proof -
  have a: "CHR ''/'' \<notin> set ''notes.tar.gz''" by simp
  have b: "CHR ''/'' \<notin> set ''..profile''" by simp
  have ea: "(let i = nat (rfind (CHR ''.'') ''notes.tar.gz'')
             in if \<exists>c \<in> set (take i ''notes.tar.gz''). c \<noteq> CHR ''.''
                then drop i ''notes.tar.gz'' else []) = ''.gz''"
    by code_simp
  have eb: "(let i = nat (rfind (CHR ''.'') ''..profile'')
             in if \<exists>c \<in> set (take i ''..profile''). c \<noteq> CHR ''.''
                then drop i ''..profile'' else []) = []"
    by code_simp
  have ca: "choose_unique_filename ''Jane Doe'' ''.gz'' ''out'' [] = ''out/Jane Doe.gz''"
    by code_simp
  have cb: "choose_unique_filename ''Jane Doe'' [] ''out'' [] = ''out/Jane Doe''"
    by code_simp
  show ?thesis
    using copy_file_extension [OF a, of "''Jane Doe''" False "''out''" "(0, 0)"
        "\<lparr>fs_paths = [], copy2_calls = [], header_calls = []\<rparr>"]
      copy_file_extension [OF b, of "''Jane Doe''" False "''out''" "(0, 0)"
        "\<lparr>fs_paths = [], copy2_calls = [], header_calls = []\<rparr>"]
    unfolding ea eb by (simp add: ca cb)
qed

text \<open>
  C5 (a source root that does not exist or is not a directory). The collector raises
  the configuration error at once: it returns \<open>RuntimeError\<close> and the world it was
  given, with no path created and no copy made.
\<close>

theorem copy_from_local_folder_bad_root:
  assumes "\<forall>listable entries. turned_in \<noteq> Some (Dir listable entries)"
  shows "copy_from_local_folder ancestors turned_in output assignment_subfolder prefix suffix
           add_to_header w = (Inl RuntimeError, w)"
  using assms
  by (auto simp: copy_from_local_folder_def isdir_def split: option.splits node.splits)

theorem copy_from_local_folder_bad_root_witness:
  "copy_from_local_folder [] None ''out'' None None None True
     \<lparr>fs_paths = [''out/kept.txt''], copy2_calls = [], header_calls = []\<rparr> =
     (Inl RuntimeError, \<lparr>fs_paths = [''out/kept.txt''], copy2_calls = [], header_calls = []\<rparr>) \<and>
   copy_from_local_folder [] (Some (File True)) ''out'' (Some ''Essay'') None None False
     \<lparr>fs_paths = [], copy2_calls = [], header_calls = []\<rparr> =
     (Inl RuntimeError, \<lparr>fs_paths = [], copy2_calls = [], header_calls = []\<rparr>)"
proof -
  have missing: "\<forall>listable entries. (None :: node option) \<noteq> Some (Dir listable entries)"
    by simp
  have not_a_dir: "\<forall>listable entries. Some (File True) \<noteq> Some (Dir listable entries)"
    by simp
  show ?thesis
    using copy_from_local_folder_bad_root [OF missing] copy_from_local_folder_bad_root [OF not_a_dir]
    by simp
qed

text \<open>
  C9 (the two counters of a normal return). When the collector returns its pair of
  counters, files found equals files copied, and that many calls of
  \<^verbatim>\<open>shutil.copy2\<close> were made during the run.
\<close>

theorem copy_from_local_folder_found_eq_copied:
  assumes "copy_from_local_folder ancestors turned_in output assignment_subfolder prefix suffix
             add_to_header w = (Inr (total_found, total_copied), w')"
  shows "total_found = total_copied \<and>
         length (copy2_calls w') = length (copy2_calls w) + total_copied"
proof -
  from assms obtain parents entries where
    "collect_students parents output assignment_subfolder prefix suffix add_to_header entries (0, 0) w =
       (Inr (total_found, total_copied), w')"
    by (auto simp: copy_from_local_folder_def split: if_splits sum.splits)
  from collect_students_counts [OF this] show ?thesis by auto
qed

theorem copy_from_local_folder_found_eq_copied_witness:
  "copy_from_local_folder
     [] (Some (Dir True [(''Jane_Doe'', Dir True [(''x.txt'', File True), (''y.txt'', File True)])]))
     ''out'' None None None False \<lparr>fs_paths = [], copy2_calls = [], header_calls = []\<rparr> =
     (Inr (2, 2),
      \<lparr>fs_paths = [''out/Jane Doe (2).txt'', ''out/Jane Doe.txt''],
       copy2_calls = [(''x.txt'', ''out/Jane Doe.txt''), (''y.txt'', ''out/Jane Doe (2).txt'')],
       header_calls = []\<rparr>) \<and>
   (2::nat) = 2 \<and>
   length [(''x.txt'', ''out/Jane Doe.txt''), (''y.txt'', ''out/Jane Doe (2).txt'')] = 0 + (2::nat)"
proof -
  have run: "copy_from_local_folder
     [] (Some (Dir True [(''Jane_Doe'', Dir True [(''x.txt'', File True), (''y.txt'', File True)])]))
     ''out'' None None None False \<lparr>fs_paths = [], copy2_calls = [], header_calls = []\<rparr> =
     (Inr (2, 2),
      \<lparr>fs_paths = [''out/Jane Doe (2).txt'', ''out/Jane Doe.txt''],
       copy2_calls = [(''x.txt'', ''out/Jane Doe.txt''), (''y.txt'', ''out/Jane Doe (2).txt'')],
       header_calls = []\<rparr>)"
    by code_simp
  from copy_from_local_folder_found_eq_copied [OF run] run show ?thesis by simp
qed

section \<open>The base name of a student\<close>

lemma base_name_of_join:
  assumes "student_name \<noteq> []"
  shows "base_name_of prefix student_name suffix =
           join_non_empty [safe_affix prefix, student_name, safe_affix suffix]"
  using assms by (simp add: base_name_of_def join_non_empty_def Let_def)

lemma safe_affix_Some:
  "safe_affix (Some s) = (if strip s = [] then [] else strip (sanitize_filename s))"
  by (auto simp: safe_affix_def strip_def lstrip_def rstrip_def)

text \<open>
  C7 fails on a blank prefix. Sanitizing the prefix \<^verbatim>\<open>" "\<close> gives the placeholder
  \<^verbatim>\<open>"unnamed"\<close>, a part that is not empty, so the words of the claim give the base
  name \<^verbatim>\<open>"unnamed Jane Doe"\<close>. The collector tests the prefix before it sanitizes
  it, and leaves a blank one out: the base name is \<^verbatim>\<open>"Jane Doe"\<close>.
\<close>

theorem blank_prefix_counterexample:
  "base_name_of (Some '' '') (sanitize_filename ''Jane_Doe'') None = ''Jane Doe'' \<and>
   spec_base_name (Some '' '') (sanitize_filename ''Jane_Doe'') None = ''unnamed Jane Doe'' \<and>
   copy2_calls (snd (copy_from_local_folder
       [] (Some (Dir True [(''Jane_Doe'', Dir True [(''x.txt'', File True)])]))
       ''out'' None (Some '' '') None False
       \<lparr>fs_paths = [], copy2_calls = [], header_calls = []\<rparr>)) =
     [(''x.txt'', ''out/Jane Doe.txt'')]"
  by code_simp

text \<open>
  C7, amended. A prefix or suffix that is absent or blank (empty once trimmed) is an
  empty part; any other is sanitized, then trimmed, and is never empty. The base name
  joins the parts that are not empty with single spaces, in the order prefix,
  sanitized student name, suffix. With the prefix \<^verbatim>\<open>"HW1"\<close>, the suffix \<^verbatim>\<open>"Final"\<close> and
  the students \<^verbatim>\<open>Jane_Doe\<close> and \<^verbatim>\<open>Bob Smith\<close>, each with a file \<^verbatim>\<open>x.txt\<close>, the files
  are copied to \<^verbatim>\<open>HW1 Jane Doe Final.txt\<close> and \<^verbatim>\<open>HW1 Bob Smith Final.txt\<close>.
\<close>

theorem base_name_of_parts:
  "base_name_of prefix (sanitize_filename name) suffix =
     join_non_empty [safe_affix prefix, sanitize_filename name, safe_affix suffix] \<and>
   safe_affix None = [] \<and>
   safe_affix (Some s) = (if strip s = [] then [] else strip (sanitize_filename s)) \<and>
   strip (sanitize_filename s) \<noteq> [] \<and>
   map snd (copy2_calls (snd (copy_from_local_folder
       [] (Some (Dir True [(''Jane_Doe'', Dir True [(''x.txt'', File True)]),
                        (''Bob Smith'', Dir True [(''x.txt'', File True)])]))
       ''out'' None (Some ''HW1'') (Some ''Final'') False
       \<lparr>fs_paths = [], copy2_calls = [], header_calls = []\<rparr>))) =
     [''out/HW1 Jane Doe Final.txt'', ''out/HW1 Bob Smith Final.txt'']"
proof -
  have "map snd (copy2_calls (snd (copy_from_local_folder
       [] (Some (Dir True [(''Jane_Doe'', Dir True [(''x.txt'', File True)]),
                        (''Bob Smith'', Dir True [(''x.txt'', File True)])]))
       ''out'' None (Some ''HW1'') (Some ''Final'') False
       \<lparr>fs_paths = [], copy2_calls = [], header_calls = []\<rparr>))) =
     [''out/HW1 Jane Doe Final.txt'', ''out/HW1 Bob Smith Final.txt'']"
    by code_simp
  moreover have "safe_affix None = []"
    by (simp add: safe_affix_def)
  ultimately show ?thesis
    using base_name_of_join [OF sanitize_filename_not_empty, of prefix name suffix]
      safe_affix_Some [of s] strip_sanitize_filename_not_empty [of s]
    by simp
qed

theorem base_name_of_parts_witness:
  "base_name_of (Some '' ?? '') (sanitize_filename ''Bob_Smith.'') (Some '' draft_2 '') =
     ''unnamed Bob Smith draft 2'' \<and>
   base_name_of None (sanitize_filename ''Bob_Smith.'') (Some ''   '') = ''Bob Smith''"
proof -
  have "join_non_empty [safe_affix (Some '' ?? ''), sanitize_filename ''Bob_Smith.'',
          safe_affix (Some '' draft_2 '')] = ''unnamed Bob Smith draft 2''"
    by code_simp
  moreover have "join_non_empty [safe_affix None, sanitize_filename ''Bob_Smith.'',
          safe_affix (Some ''   '')] = ''Bob Smith''"
    by code_simp
  ultimately show ?thesis
    using base_name_of_parts [of "Some '' ?? ''" "''Bob_Smith.''" "Some '' draft_2 ''" "[]"]
      base_name_of_parts [of None "''Bob_Smith.''" "Some ''   ''" "[]"]
    by simp
qed

section \<open>Stamping the header\<close>

lemma copy_file_header_calls:
  assumes "header_calls_match add_to_header w"
  shows "header_calls_match add_to_header
           (snd (copy_file base_name add_to_header output item totals w))"
  using assms
  by (cases item; cases totals) (auto simp: copy_file_def header_calls_match_def Let_def)

lemma copy_files_header_calls:
  assumes "header_calls_match add_to_header w"
  shows "header_calls_match add_to_header
           (snd (copy_files base_name add_to_header output items totals w))"
  using assms
proof (induction items arbitrary: totals w)
  case Nil
  then show ?case by simp
next
  case (Cons item items)
  obtain r w1 where step: "copy_file base_name add_to_header output item totals w = (r, w1)"
    by (cases "copy_file base_name add_to_header output item totals w")
  with copy_file_header_calls [OF Cons.prems, of base_name "output" item totals]
  have w1: "header_calls_match add_to_header w1" by simp
  show ?case
  proof (cases r)
    case (Inl e)
    with step w1 show ?thesis by simp
  next
    case (Inr totals')
    with step Cons.IH [OF w1, of totals'] show ?thesis by simp
  qed
qed

lemma collect_student_header_calls:
  assumes "header_calls_match add_to_header w"
  shows "header_calls_match add_to_header
           (snd (collect_student parents output assignment_subfolder prefix suffix add_to_header
                   entry totals w))"
  using assms
  by (cases entry)
     (auto simp: collect_student_def Let_def copy_files_header_calls split: option.splits)

lemma collect_students_header_calls:
  assumes "header_calls_match add_to_header w"
  shows "header_calls_match add_to_header
           (snd (collect_students parents output assignment_subfolder prefix suffix add_to_header
                   entries totals w))"
  using assms
proof (induction entries arbitrary: totals w)
  case Nil
  then show ?case by simp
next
  case (Cons entry entries)
  obtain r w1 where step: "collect_student parents output assignment_subfolder prefix suffix
      add_to_header entry totals w = (r, w1)"
    by (cases "collect_student parents output assignment_subfolder prefix suffix
      add_to_header entry totals w")
  with collect_student_header_calls [OF Cons.prems, of parents "output" assignment_subfolder
      prefix suffix entry totals]
  have w1: "header_calls_match add_to_header w1" by simp
  show ?case
  proof (cases r)
    case (Inl e)
    with step w1 show ?thesis by simp
  next
    case (Inr totals')
    with step Cons.IH [OF w1, of totals'] show ?thesis by simp
  qed
qed

text \<open>
  C10 fails when stamping is disabled: the file \<^verbatim>\<open>essay.docx\<close> is copied, its
  extension is \<^verbatim>\<open>.docx\<close>, and no header call is made.
\<close>

theorem stamping_disabled_counterexample:
  "lower (snd (splitext ''essay.docx'')) = ''.docx'' \<and>
   copy2_calls (snd (copy_from_local_folder
       [] (Some (Dir True [(''Jane'', Dir True [(''essay.docx'', File True)])]))
       ''out'' None None None False
       \<lparr>fs_paths = [], copy2_calls = [], header_calls = []\<rparr>)) =
     [(''essay.docx'', ''out/Jane.docx'')] \<and>
   header_calls (snd (copy_from_local_folder
       [] (Some (Dir True [(''Jane'', Dir True [(''essay.docx'', File True)])]))
       ''out'' None None None False
       \<lparr>fs_paths = [], copy2_calls = [], header_calls = []\<rparr>)) = []"
  by code_simp

text \<open>
  C10, amended. In a run of the collector, whether it ends normally or in an error,
  the destinations of the header calls are, in order, the destinations of the files
  copied whose extension lowercases to \<^verbatim>\<open>.docx\<close> when header stamping is enabled; when
  it is disabled no header call is made.
\<close>

theorem header_calls_of_run:
  "map fst (header_calls (snd (copy_from_local_folder ancestors turned_in output assignment_subfolder
        prefix suffix add_to_header
        \<lparr>fs_paths = paths, copy2_calls = [], header_calls = []\<rparr>))) =
   map snd (filter (\<lambda>(fname, dest_path).
                      add_to_header \<and> lower (snd (splitext fname)) = ''.docx'')
     (copy2_calls (snd (copy_from_local_folder ancestors turned_in output assignment_subfolder
        prefix suffix add_to_header
        \<lparr>fs_paths = paths, copy2_calls = [], header_calls = []\<rparr>))))"
proof -
  have "header_calls_match add_to_header
          \<lparr>fs_paths = paths, copy2_calls = [], header_calls = []\<rparr>"
    by (simp add: header_calls_match_def)
  then have "header_calls_match add_to_header
     (snd (copy_from_local_folder ancestors turned_in output assignment_subfolder prefix suffix
             add_to_header \<lparr>fs_paths = paths, copy2_calls = [], header_calls = []\<rparr>))"
    by (auto simp: copy_from_local_folder_def collect_students_header_calls split: sum.splits)
  then show ?thesis by (simp add: header_calls_match_def)
qed

theorem header_calls_of_run_witness:
  "copy2_calls (snd (copy_from_local_folder
       [] (Some (Dir True [(''Jane'', Dir True
          [(''a.DOCX'', File True), (''b.doc'', File True), (''c.Docx'', File True),
           (''d.docx.bak'', File True), (''docx'', File True)])]))
       ''out'' None None None True
       \<lparr>fs_paths = [], copy2_calls = [], header_calls = []\<rparr>)) =
     [(''a.DOCX'', ''out/Jane.DOCX''), (''b.doc'', ''out/Jane.doc''),
      (''c.Docx'', ''out/Jane.Docx''), (''d.docx.bak'', ''out/Jane.bak''),
      (''docx'', ''out/Jane'')] \<and>
   map fst (header_calls (snd (copy_from_local_folder
       [] (Some (Dir True [(''Jane'', Dir True
          [(''a.DOCX'', File True), (''b.doc'', File True), (''c.Docx'', File True),
           (''d.docx.bak'', File True), (''docx'', File True)])]))
       ''out'' None None None True
       \<lparr>fs_paths = [], copy2_calls = [], header_calls = []\<rparr>))) =
     [''out/Jane.DOCX'', ''out/Jane.Docx'']"
proof -
  have copies: "copy2_calls (snd (copy_from_local_folder
       [] (Some (Dir True [(''Jane'', Dir True
          [(''a.DOCX'', File True), (''b.doc'', File True), (''c.Docx'', File True),
           (''d.docx.bak'', File True), (''docx'', File True)])]))
       ''out'' None None None True
       \<lparr>fs_paths = [], copy2_calls = [], header_calls = []\<rparr>)) =
     [(''a.DOCX'', ''out/Jane.DOCX''), (''b.doc'', ''out/Jane.doc''),
      (''c.Docx'', ''out/Jane.Docx''), (''d.docx.bak'', ''out/Jane.bak''),
      (''docx'', ''out/Jane'')]"
    by code_simp
  have chosen: "map snd (filter (\<lambda>(fname, dest_path).
                      True \<and> lower (snd (splitext fname)) = ''.docx'')
     [(''a.DOCX'', ''out/Jane.DOCX''), (''b.doc'', ''out/Jane.doc''),
      (''c.Docx'', ''out/Jane.Docx''), (''d.docx.bak'', ''out/Jane.bak''),
      (''docx'', ''out/Jane'')]) = [''out/Jane.DOCX'', ''out/Jane.Docx'']"
    by code_simp
  show ?thesis
    using header_calls_of_run [of "[]"
        "Some (Dir True [(''Jane'', Dir True
          [(''a.DOCX'', File True), (''b.doc'', File True), (''c.Docx'', File True),
           (''d.docx.bak'', File True), (''docx'', File True)])])"
        "''out''" None None None True "[]"]
    unfolding copies chosen by (simp add: copies)
qed

section \<open>The assignment selector\<close>
















text \<open>
  How selectors are resolved from a student directory whose parent is the source
  root, itself the root of the file system here: \<^verbatim>\<open>.\<close> is the directory itself, empty
  components and a final separator change nothing, \<^verbatim>\<open>..\<close> climbs to the source root, an
  absolute path starts at the root of the file system, every directory passed must
  exist, and a directory that cannot be opened is named but not passed.
\<close>

lemma selector_path_examples:
  "named_by [Dir True [(''Essay'', Dir True [(''notes'', Dir True [])])],
             Dir True [(''Bob'', Dir True [(''Quiz'', Dir True [])])]] ''.'' =
     Some (Dir True [(''Essay'', Dir True [(''notes'', Dir True [])])]) \<and>
   named_by [Dir True [(''Essay'', Dir True [(''notes'', Dir True [])])],
             Dir True [(''Bob'', Dir True [(''Quiz'', Dir True [])])]] ''Essay//notes/'' =
     Some (Dir True []) \<and>
   named_by [Dir True [(''Essay'', Dir True [(''notes'', Dir True [])])],
             Dir True [(''Bob'', Dir True [(''Quiz'', Dir True [])])]] ''../Bob/Quiz'' =
     Some (Dir True []) \<and>
   named_by [Dir True [(''Essay'', Dir True [(''notes'', Dir True [])])],
             Dir True [(''Bob'', Dir True [(''Quiz'', Dir True [])])]] ''/Bob'' =
     Some (Dir True [(''Quiz'', Dir True [])]) \<and>
   named_by [Dir True [(''Essay'', Dir True [(''notes'', Dir True [])])],
             Dir True [(''Bob'', Dir True [(''Quiz'', Dir True [])])]] ''missing/../Essay'' = None \<and>
   named_by [Dir False [(''Essay'', Dir True [(''notes'', Dir True [])])],
             Dir True [(''Bob'', Dir True [(''Quiz'', Dir True [])])]] ''Essay'' = None \<and>
   named_by [Dir True [(''Essay'', Dir False [(''notes'', Dir True [])])],
             Dir True [(''Bob'', Dir True [(''Quiz'', Dir True [])])]] ''Essay'' =
     Some (Dir False [(''notes'', Dir True [])]) \<and>
   named_by [Dir True [(''Essay'', Dir False [(''notes'', Dir True [])])],
             Dir True [(''Bob'', Dir True [(''Quiz'', Dir True [])])]] ''Essay/notes'' = None"
  by code_simp





section \<open>Properties of assignment discovery\<close>

lemma set_subdir_names:
  "set (subdir_names sub) = {d. \<exists>listable es. (d, Dir listable es) \<in> set sub}"
  by (induction sub rule: subdir_names.induct) auto

lemma scan_students_eq:
  "scan_students entries names =
     names \<union> {d. \<exists>student sub. (student, Dir True sub) \<in> set entries \<and>
                                    d \<in> set (subdir_names sub)}"
  by (induction entries names rule: scan_students.induct) auto

lemma finite_scan_students: "finite names \<Longrightarrow> finite (scan_students entries names)"
  by (induction entries names rule: scan_students.induct) auto


text \<open>
  C8 (assignment discovery). A root that does not exist or is a file gives the
  empty list. For a root that can be listed the names returned are in strictly
  ascending order (sorted, none twice) and are exactly the names of the
  subdirectories of the student directories that can be listed; a student directory
  that cannot be listed adds nothing, the result is the one without it. Only a root
  directory that cannot itself be listed raises.
\<close>

theorem discovered_names:
  "collect_assignment_subfolders None = Inr [] \<and>
   collect_assignment_subfolders (Some (File readable)) = Inr [] \<and>
   collect_assignment_subfolders (Some (Dir False entries)) = Inl PermissionError \<and>
   (\<exists>names. collect_assignment_subfolders (Some (Dir True entries)) = Inr names \<and>
      sorted_wrt (<) names \<and>
      set names = {d. \<exists>student sub listable es.
                       (student, Dir True sub) \<in> set entries \<and> (d, Dir listable es) \<in> set sub}) \<and>
   collect_assignment_subfolders (Some (Dir True (entries @ (student, Dir False sub) # others))) =
     collect_assignment_subfolders (Some (Dir True (entries @ others)))"
proof -
  let ?names = "sorted_list_of_set (scan_students entries {})"
  have fin: "finite (scan_students entries {})"
    by (rule finite_scan_students) simp
  have run: "collect_assignment_subfolders (Some (Dir True entries)) = Inr ?names"
    by (simp add: collect_assignment_subfolders_def isdir_def scandir_def)
  have "set ?names = scan_students entries {}"
    using fin by simp
  also have "\<dots> = {d. \<exists>student sub listable es.
                       (student, Dir True sub) \<in> set entries \<and> (d, Dir listable es) \<in> set sub}"
    by (auto simp: scan_students_eq set_subdir_names)
  finally have names: "set ?names = {d. \<exists>student sub listable es.
                       (student, Dir True sub) \<in> set entries \<and> (d, Dir listable es) \<in> set sub}" .
  have skipped: "scan_students (entries @ (student, Dir False sub) # others) {} =
                 scan_students (entries @ others) {}"
    by (auto simp: scan_students_eq)
  show ?thesis
    using run names strict_sorted_list_of_set [of "scan_students entries {}"] skipped
    by (simp add: collect_assignment_subfolders_def isdir_def scandir_def)
qed


theorem discovered_names_witness:
  "collect_assignment_subfolders (Some (Dir True
      ([(''Ann'', Dir True [(''Essay'', Dir True []), (''a.txt'', File True)]),
        (''Bob'', Dir True [(''Quiz'', Dir True []), (''Essay'', Dir True [])])] @
       (''Cy'', Dir False [(''Hidden'', Dir True [])]) #
       [(''readme.txt'', File True), (''Dee'', Dir True [(''Essay'', Dir True [])])]))) =
     Inr [''Essay'', ''Quiz'']"
proof -
  have "collect_assignment_subfolders (Some (Dir True
      ([(''Ann'', Dir True [(''Essay'', Dir True []), (''a.txt'', File True)]),
        (''Bob'', Dir True [(''Quiz'', Dir True []), (''Essay'', Dir True [])])] @
       [(''readme.txt'', File True), (''Dee'', Dir True [(''Essay'', Dir True [])])]))) =
     Inr [''Essay'', ''Quiz'']"
    by code_simp
  with discovered_names [of True
      "[(''Ann'', Dir True [(''Essay'', Dir True []), (''a.txt'', File True)]),
        (''Bob'', Dir True [(''Quiz'', Dir True []), (''Essay'', Dir True [])])]"
      "''Cy''" "[(''Hidden'', Dir True [])]"
      "[(''readme.txt'', File True), (''Dee'', Dir True [(''Essay'', Dir True [])])]"]
  show ?thesis by (simp only:)
qed

section \<open>Properties of the unique path resolver\<close>

lemma digit_value:
  assumes "d < 10"
  shows "(of_char (char_of (48 + d) :: char) :: nat) - 48 = d"
proof -
  from assms have "(48 + d) mod 256 = 48 + d" by simp
  then have "(of_char (char_of (48 + d) :: char) :: nat) = 48 + d"
    by (simp only: of_char_of)
  then show ?thesis by simp
qed

lemma digits_value: "foldl (\<lambda>a c. 10 * a + (of_char c - 48)) 0 (str_nat n) = n"
proof (induction n rule: str_nat.induct)
  case (1 n)
  show ?case
  proof (cases "n < 10")
    case True
    then have "str_nat n = [char_of (48 + n)]"
      by (subst str_nat.simps) simp
    with digit_value [OF True] show ?thesis by simp
  next
    case False
    with 1 have ih: "foldl (\<lambda>a c. 10 * a + (of_char c - 48)) 0 (str_nat (n div 10)) = n div 10"
      by simp
    have last: "(of_char (char_of (48 + n mod 10) :: char) :: nat) - 48 = n mod 10"
      by (rule digit_value) simp
    from False have "str_nat n = str_nat (n div 10) @ [char_of (48 + n mod 10)]"
      by (subst str_nat.simps) simp
    then have "foldl (\<lambda>a c. 10 * a + (of_char c - 48)) 0 (str_nat n) =
               10 * (n div 10) + n mod 10"
      by (simp only: foldl_append foldl_Cons foldl_Nil ih last)
    then show ?thesis by simp
  qed
qed

lemma str_nat_inj:
  assumes "str_nat m = str_nat n"
  shows "m = n"
proof -
  have "m = foldl (\<lambda>a c. 10 * a + (of_char c - 48)) 0 (str_nat m)"
    by (simp only: digits_value)
  also have "\<dots> = foldl (\<lambda>a c. 10 * a + (of_char c - 48)) 0 (str_nat n)"
    by (simp only: assms)
  also have "\<dots> = n"
    by (rule digits_value)
  finally show ?thesis .
qed

lemma nth_candidate_inj:
  assumes "nth_candidate base_name ext j = nth_candidate base_name ext k"
    and "1 \<le> j" and "1 \<le> k"
  shows "j = k"
proof (cases "j \<le> 1")
  case True
  with assms have j: "j = 1" by simp
  show ?thesis
  proof (cases "k \<le> 1")
    case True
    with assms j show ?thesis by simp
  next
    case False
    with assms(1) j have "length (base_name @ ext) =
        length (base_name @ '' ('' @ str_nat k @ '')'' @ ext)"
      by (simp add: nth_candidate_def)
    then show ?thesis by simp
  qed
next
  case False
  show ?thesis
  proof (cases "k \<le> 1")
    case True
    with assms(1) False have "length (base_name @ '' ('' @ str_nat j @ '')'' @ ext) =
        length (base_name @ ext)"
      by (simp add: nth_candidate_def)
    then show ?thesis by simp
  next
    case k: False
    with assms(1) False have "str_nat j @ ('')'' @ ext) = str_nat k @ ('')'' @ ext)"
      by (simp add: nth_candidate_def)
    then have "str_nat j = str_nat k" by (simp only: append_same_eq)
    then show ?thesis by (rule str_nat_inj)
  qed
qed

lemma path_join_inj:
  assumes "path_join folder x = path_join folder y"
    and "(x \<noteq> [] \<and> hd x = CHR ''/'') = (y \<noteq> [] \<and> hd y = CHR ''/'')"
  shows "x = y"
  using assms by (auto simp: path_join_def split: if_splits)

lemma length_path_join_eq:
  "length (path_join folder x) =
     (if x \<noteq> [] \<and> hd x = CHR ''/'' then length x
      else if folder = [] \<or> last folder = CHR ''/'' then length folder + length x
      else length folder + 1 + length x)"
  by (simp add: path_join_def)

lemma candidate_path_inj:
  assumes eq: "path_join folder (nth_candidate base_name ext j) =
               path_join folder (nth_candidate base_name ext k)"
    and "1 \<le> j" and "1 \<le> k"
  shows "j = k"
proof -
  have same: "(nth_candidate base_name ext j \<noteq> [] \<and> hd (nth_candidate base_name ext j) = CHR ''/'') =
        (nth_candidate base_name ext k \<noteq> [] \<and> hd (nth_candidate base_name ext k) = CHR ''/'')"
    if "length (nth_candidate base_name ext j) = length (nth_candidate base_name ext k)"
  proof (cases "base_name = []")
    case False
    then show ?thesis by (simp add: nth_candidate_def)
  next
    case True
    with that have "(j \<le> 1) = (k \<le> 1)"
      by (auto simp: nth_candidate_def split: if_splits)
    with True show ?thesis by (auto simp: nth_candidate_def)
  qed
  have len: "length (nth_candidate base_name ext j) = length (nth_candidate base_name ext k)"
  proof (rule ccontr)
    assume ne: "length (nth_candidate base_name ext j) \<noteq> length (nth_candidate base_name ext k)"
    from eq have l: "length (path_join folder (nth_candidate base_name ext j)) =
               length (path_join folder (nth_candidate base_name ext k))" by simp
    show False
    proof (cases "base_name = []")
      case False
      then have "(nth_candidate base_name ext j \<noteq> [] \<and> hd (nth_candidate base_name ext j) = CHR ''/'') =
        (nth_candidate base_name ext k \<noteq> [] \<and> hd (nth_candidate base_name ext k) = CHR ''/'')"
        by (simp add: nth_candidate_def)
      with eq have "nth_candidate base_name ext j = nth_candidate base_name ext k"
        by (rule path_join_inj)
      with ne show False by simp
    next
      case True
      show False
      proof (cases "(j \<le> 1) = (k \<le> 1)")
        case True
        with \<open>base_name = []\<close>
        have "(nth_candidate base_name ext j \<noteq> [] \<and> hd (nth_candidate base_name ext j) = CHR ''/'') =
          (nth_candidate base_name ext k \<noteq> [] \<and> hd (nth_candidate base_name ext k) = CHR ''/'')"
          by (auto simp: nth_candidate_def)
        with eq have "nth_candidate base_name ext j = nth_candidate base_name ext k"
          by (rule path_join_inj)
        with ne show False by simp
      next
        case False
        with l \<open>base_name = []\<close> show False
          by (auto simp: length_path_join_eq nth_candidate_def split: if_splits)
      qed
    qed
  qed
  from eq same [OF len] have "nth_candidate base_name ext j = nth_candidate base_name ext k"
    by (rule path_join_inj)
  from this assms(2,3) show ?thesis by (rule nth_candidate_inj)
qed

lemma choose_numbered_first_free:
  assumes "2 \<le> i"
  shows "\<exists>k\<ge>i. choose_numbered base_name ext folder existing i =
                 path_join folder (nth_candidate base_name ext k) \<and>
               path_join folder (nth_candidate base_name ext k) \<notin> set existing \<and>
               (\<forall>j. i \<le> j \<and> j < k \<longrightarrow>
                  path_join folder (nth_candidate base_name ext j) \<in> set existing)"
  using assms
proof (induction base_name ext folder existing i rule: choose_numbered.induct)
  case (1 base_name ext folder existing i)
  let ?path = "path_join folder (base_name @ '' ('' @ str_nat i @ '')'' @ ext)"
  from "1.prems" have cand: "nth_candidate base_name ext i = base_name @ '' ('' @ str_nat i @ '')'' @ ext"
    by (simp add: nth_candidate_def)
  show ?case
  proof (cases "?path \<in> set existing")
    case False
    then have "choose_numbered base_name ext folder existing i = ?path"
      by (simp add: choose_numbered.simps [of base_name ext folder existing i])
    with False cand show ?thesis by (intro exI [of _ i]) auto
  next
    case True
    then have step: "choose_numbered base_name ext folder existing i =
                     choose_numbered base_name ext folder existing (i + 1)"
      by (simp add: choose_numbered.simps [of base_name ext folder existing i])
    from "1.IH" [OF refl refl] True "1.prems"
    obtain k where k: "i + 1 \<le> k"
      "choose_numbered base_name ext folder existing (i + 1) =
         path_join folder (nth_candidate base_name ext k)"
      "path_join folder (nth_candidate base_name ext k) \<notin> set existing"
      "\<forall>j. i + 1 \<le> j \<and> j < k \<longrightarrow>
          path_join folder (nth_candidate base_name ext j) \<in> set existing"
      by auto
    have "\<forall>j. i \<le> j \<and> j < k \<longrightarrow>
          path_join folder (nth_candidate base_name ext j) \<in> set existing"
    proof (intro allI impI)
      fix j assume j: "i \<le> j \<and> j < k"
      show "path_join folder (nth_candidate base_name ext j) \<in> set existing"
      proof (cases "j = i")
        case True
        with \<open>?path \<in> set existing\<close> cand show ?thesis by simp
      next
        case False
        with j k(4) show ?thesis by simp
      qed
    qed
    with k step show ?thesis by (intro exI [of _ k]) simp
  qed
qed

lemma choose_unique_filename_first_free:
  "\<exists>k\<ge>1. choose_unique_filename base_name ext folder existing =
                 path_join folder (nth_candidate base_name ext k) \<and>
               path_join folder (nth_candidate base_name ext k) \<notin> set existing \<and>
               (\<forall>j. 1 \<le> j \<and> j < k \<longrightarrow>
                  path_join folder (nth_candidate base_name ext j) \<in> set existing)"
proof (cases "path_join folder (base_name @ ext) \<in> set existing")
  case False
  then have "choose_unique_filename base_name ext folder existing =
             path_join folder (nth_candidate base_name ext 1)"
    by (simp add: choose_unique_filename_def nth_candidate_def)
  with False show ?thesis
    by (intro exI [of _ 1]) (simp add: nth_candidate_def)
next
  case True
  then have "choose_unique_filename base_name ext folder existing =
             choose_numbered base_name ext folder existing 2"
    by (simp add: choose_unique_filename_def)
  moreover from choose_numbered_first_free [of 2 base_name ext folder existing]
  obtain k where k: "2 \<le> k"
    "choose_numbered base_name ext folder existing 2 =
       path_join folder (nth_candidate base_name ext k)"
    "path_join folder (nth_candidate base_name ext k) \<notin> set existing"
    "\<forall>j. 2 \<le> j \<and> j < k \<longrightarrow>
       path_join folder (nth_candidate base_name ext j) \<in> set existing"
    by auto
  moreover have "\<forall>j. 1 \<le> j \<and> j < k \<longrightarrow>
       path_join folder (nth_candidate base_name ext j) \<in> set existing"
  proof (intro allI impI)
    fix j assume j: "1 \<le> j \<and> j < k"
    show "path_join folder (nth_candidate base_name ext j) \<in> set existing"
    proof (cases "j = 1")
      case True
      with \<open>path_join folder (base_name @ ext) \<in> set existing\<close> show ?thesis
        by (simp add: nth_candidate_def)
    next
      case False
      with j k(4) show ?thesis by simp
    qed
  qed
  ultimately show ?thesis by (intro exI [of _ k]) simp
qed


lemma choose_unique_filename_free:
  "choose_unique_filename base_name ext folder existing \<notin> set existing"
  using choose_unique_filename_first_free [of base_name ext folder existing] by auto

lemma claim_repeatedly_fresh:
  "length (claim_repeatedly base_name ext folder existing n) = n \<and>
   distinct (claim_repeatedly base_name ext folder existing n) \<and>
   set (claim_repeatedly base_name ext folder existing n) \<inter> set existing = {}"
proof (induction n arbitrary: existing)
  case 0
  show ?case by simp
next
  case (Suc n)
  let ?p = "choose_unique_filename base_name ext folder existing"
  from Suc [of "?p # existing"] choose_unique_filename_free [of base_name ext folder existing]
  show ?case by (auto simp: Let_def)
qed

lemma claim_repeatedly_ascending:
  "\<exists>ks. claim_repeatedly base_name ext folder existing n =
           map (\<lambda>k. path_join folder (nth_candidate base_name ext k)) ks \<and>
        sorted_wrt (<) ks \<and>
        (\<forall>k \<in> set ks. 1 \<le> k \<and>
           path_join folder (nth_candidate base_name ext k) \<notin> set existing)"
proof (induction n arbitrary: existing)
  case 0
  show ?case by simp
next
  case (Suc n)
  let ?cand = "\<lambda>k. path_join folder (nth_candidate base_name ext k)"
  let ?p = "choose_unique_filename base_name ext folder existing"
  from choose_unique_filename_first_free [of base_name ext folder existing]
  obtain k0 where k0: "1 \<le> k0" "?p = ?cand k0" "?cand k0 \<notin> set existing"
    "\<forall>j. 1 \<le> j \<and> j < k0 \<longrightarrow> ?cand j \<in> set existing"
    by auto
  from Suc [of "?p # existing"] obtain ks where ks:
    "claim_repeatedly base_name ext folder (?p # existing) n = map ?cand ks"
    "sorted_wrt (<) ks"
    "\<forall>k \<in> set ks. 1 \<le> k \<and> ?cand k \<notin> set (?p # existing)"
    by auto
  have later: "k0 < k" if "k \<in> set ks" for k
  proof -
    from that ks(3) have k: "1 \<le> k" "?cand k \<noteq> ?p" "?cand k \<notin> set existing"
      by auto
    from k(1,3) k0(4) have "\<not> k < k0" by auto
    moreover from k(2) k0(2) have "k \<noteq> k0" by auto
    ultimately show ?thesis by simp
  qed
  have "claim_repeatedly base_name ext folder existing (Suc n) = map ?cand (k0 # ks)"
    using ks(1) k0(2) by (simp add: Let_def)
  moreover have "sorted_wrt (<) (k0 # ks)"
    using ks(2) later by simp
  moreover have "\<forall>k \<in> set (k0 # ks). 1 \<le> k \<and> ?cand k \<notin> set existing"
    using k0(1,3) ks(3) by auto
  ultimately show ?case by blast
qed

lemma claim_repeatedly_from:
  assumes "1 \<le> m"
    and "\<forall>j. 1 \<le> j \<and> j < m \<longrightarrow>
           path_join folder (nth_candidate base_name ext j) \<in> set existing"
    and "\<forall>k. m \<le> k \<and> k < m + n \<longrightarrow>
           path_join folder (nth_candidate base_name ext k) \<notin> set existing"
  shows "claim_repeatedly base_name ext folder existing n =
           map (\<lambda>k. path_join folder (nth_candidate base_name ext k)) [m..<m + n]"
  using assms
proof (induction n arbitrary: existing m)
  case 0
  show ?case by simp
next
  case (Suc n)
  let ?cand = "\<lambda>k. path_join folder (nth_candidate base_name ext k)"
  let ?p = "choose_unique_filename base_name ext folder existing"
  from choose_unique_filename_first_free [of base_name ext folder existing]
  obtain k0 where k0: "1 \<le> k0" "?p = ?cand k0" "?cand k0 \<notin> set existing"
    "\<forall>j. 1 \<le> j \<and> j < k0 \<longrightarrow> ?cand j \<in> set existing"
    by auto
  from Suc.prems(3) have "?cand m \<notin> set existing" by simp
  with k0(4) Suc.prems(1) have "\<not> m < k0" by auto
  moreover from Suc.prems(2) k0(1,3) have "\<not> k0 < m" by auto
  ultimately have "k0 = m" by simp
  with k0 have p: "?p = ?cand m" by simp
  have occupied: "\<forall>j. 1 \<le> j \<and> j < m + 1 \<longrightarrow> ?cand j \<in> set (?p # existing)"
  proof (intro allI impI)
    fix j assume "1 \<le> j \<and> j < m + 1"
    then have "j = m \<or> (1 \<le> j \<and> j < m)" by auto
    with p Suc.prems(2) show "?cand j \<in> set (?p # existing)" by auto
  qed
  have free: "\<forall>k. m + 1 \<le> k \<and> k < m + 1 + n \<longrightarrow> ?cand k \<notin> set (?p # existing)"
  proof (intro allI impI)
    fix k assume k: "m + 1 \<le> k \<and> k < m + 1 + n"
    with Suc.prems(3) have "?cand k \<notin> set existing" by simp
    moreover have "?cand k \<noteq> ?cand m"
    proof
      assume "?cand k = ?cand m"
      then have "k = m" using k Suc.prems(1) by (intro candidate_path_inj) auto
      with k show False by simp
    qed
    ultimately show "?cand k \<notin> set (?p # existing)" using p by simp
  qed
  have "claim_repeatedly base_name ext folder (?p # existing) n = map ?cand [m + 1..<m + 1 + n]"
    using Suc.IH [of "m + 1" "?p # existing"] Suc.prems(1) occupied free by simp
  with p have "claim_repeatedly base_name ext folder existing (Suc n) =
               ?cand m # map ?cand [m + 1..<m + 1 + n]"
    by (simp add: Let_def)
  also have "\<dots> = map ?cand [m..<m + Suc n]"
    using upt_conv_Cons [of m "m + Suc n"] by (simp del: upt_Suc)
  finally show ?case .
qed

lemma str_nat_digits:
  "c \<in> set (str_nat n) \<Longrightarrow> 48 \<le> (of_char c :: nat) \<and> (of_char c :: nat) \<le> 57"
proof (induction n rule: str_nat.induct)
  case (1 n)
  have digit: "48 \<le> (of_char (char_of (48 + d) :: char) :: nat) \<and>
               (of_char (char_of (48 + d) :: char) :: nat) \<le> 57" if "d < 10" for d :: nat
  proof -
    from that have "(48 + d) mod 256 = 48 + d" by simp
    then have "(of_char (char_of (48 + d) :: char) :: nat) = 48 + d"
      by (simp only: of_char_of)
    with that show ?thesis by simp
  qed
  show ?case
  proof (cases "n < 10")
    case True
    with "1.prems" have "c = char_of (48 + n)"
      by (simp add: str_nat.simps [of n])
    with digit [OF True] show ?thesis by simp
  next
    case False
    with "1.prems" have "c \<in> set (str_nat (n div 10)) \<or> c = char_of (48 + n mod 10)"
      by (auto simp: str_nat.simps [of n])
    then show ?thesis
    proof
      assume "c \<in> set (str_nat (n div 10))"
      with 1 False show ?thesis by simp
    next
      assume "c = char_of (48 + n mod 10)"
      with digit [of "n mod 10"] show ?thesis by simp
    qed
  qed
qed

lemma str_nat_no_separator: "CHR ''/'' \<notin> set (str_nat n)"
  using str_nat_digits [of "CHR ''/''" n] by auto

lemma nth_candidate_no_separator:
  assumes "CHR ''/'' \<notin> set (base_name @ ext)"
  shows "CHR ''/'' \<notin> set (nth_candidate base_name ext k)"
  using assms str_nat_no_separator [of k] by (simp add: nth_candidate_def)

lemma path_join_in_folder:
  assumes "CHR ''/'' \<notin> set name"
  shows "path_join folder name =
           (if folder = [] \<or> last folder = CHR ''/'' then folder @ name
            else folder @ ''/'' @ name)"
proof (cases name)
  case Nil
  then show ?thesis by (simp add: path_join_def)
next
  case (Cons c cs)
  with assms have "hd name \<noteq> CHR ''/''" by auto
  then show ?thesis by (simp add: path_join_def)
qed

lemma choose_unique_filename_in_folder:
  assumes "CHR ''/'' \<notin> set (base_name @ ext)"
  shows "\<exists>name. CHR ''/'' \<notin> set name \<and>
           choose_unique_filename base_name ext folder existing =
             (if folder = [] \<or> last folder = CHR ''/'' then folder @ name
              else folder @ ''/'' @ name)"
proof -
  from choose_unique_filename_first_free [of base_name ext folder existing]
  obtain k where "choose_unique_filename base_name ext folder existing =
      path_join folder (nth_candidate base_name ext k)"
    by blast
  with path_join_in_folder [OF nth_candidate_no_separator [OF assms, of k], of folder]
    nth_candidate_no_separator [OF assms, of k]
  show ?thesis by metis
qed

text \<open>
  C3 (the resolver called N times, each path claimed before the next call, gives
  \<^verbatim>\<open>base+ext\<close>, \<^verbatim>\<open>base (2)+ext\<close>, \<^verbatim>\<open>base (3)+ext\<close>, ... in any folder) fails in a folder that
  already holds one of the candidates: with \<^verbatim>\<open>out/a (2).txt\<close> there, two calls give
  \<^verbatim>\<open>out/a.txt\<close> and \<^verbatim>\<open>out/a (3).txt\<close>.
\<close>

theorem occupied_candidate_counterexample:
  "claim_repeatedly ''a'' ''.txt'' ''out'' [''out/a (2).txt''] 2 =
     [''out/a.txt'', ''out/a (3).txt''] \<and>
   map (\<lambda>k. path_join ''out'' (nth_candidate ''a'' ''.txt'' k)) [1..<2 + 1] =
     [''out/a.txt'', ''out/a (2).txt''] \<and>
   claim_repeatedly ''a'' ''.txt'' ''out'' [''out/a (2).txt''] 2 \<noteq>
     map (\<lambda>k. path_join ''out'' (nth_candidate ''a'' ''.txt'' k)) [1..<2 + 1]"
  by code_simp

text \<open>
  C3, amended. The resolver returns the join of the folder with a candidate name, a
  path that does not exist at the moment of the call: the first free one in the order
  \<^verbatim>\<open>base+ext\<close>, \<^verbatim>\<open>base (2)+ext\<close>, \<^verbatim>\<open>base (3)+ext\<close>, ... Called N times with each returned
  path claimed before the next call, it gives N distinct paths, none of which existed
  before, following that order with ascending numbers; candidates that exist already
  are passed over, and the paths are exactly the first N candidates when none of
  these exists beforehand. When the base name and the extension hold no separator,
  the path returned is the folder, one separator and a name without separator.
\<close>

theorem resolver_order:
  "choose_unique_filename base_name ext folder existing \<notin> set existing \<and>
   (\<exists>k\<ge>1. choose_unique_filename base_name ext folder existing =
             path_join folder (nth_candidate base_name ext k) \<and>
           (\<forall>j. 1 \<le> j \<and> j < k \<longrightarrow>
              path_join folder (nth_candidate base_name ext j) \<in> set existing)) \<and>
   length (claim_repeatedly base_name ext folder existing n) = n \<and>
   distinct (claim_repeatedly base_name ext folder existing n) \<and>
   set (claim_repeatedly base_name ext folder existing n) \<inter> set existing = {} \<and>
   (\<exists>ks. claim_repeatedly base_name ext folder existing n =
            map (\<lambda>k. path_join folder (nth_candidate base_name ext k)) ks \<and>
         sorted_wrt (<) ks \<and> (\<forall>k \<in> set ks. 1 \<le> k)) \<and>
   ((\<forall>k. 1 \<le> k \<and> k \<le> n \<longrightarrow>
       path_join folder (nth_candidate base_name ext k) \<notin> set existing) \<longrightarrow>
    claim_repeatedly base_name ext folder existing n =
      map (\<lambda>k. path_join folder (nth_candidate base_name ext k)) [1..<n + 1]) \<and>
   (CHR ''/'' \<notin> set (base_name @ ext) \<longrightarrow>
    (\<exists>name. CHR ''/'' \<notin> set name \<and>
       choose_unique_filename base_name ext folder existing =
         (if folder = [] \<or> last folder = CHR ''/'' then folder @ name
          else folder @ ''/'' @ name)))"
proof -
  have first: "\<exists>k\<ge>1. choose_unique_filename base_name ext folder existing =
             path_join folder (nth_candidate base_name ext k) \<and>
           (\<forall>j. 1 \<le> j \<and> j < k \<longrightarrow>
              path_join folder (nth_candidate base_name ext j) \<in> set existing)"
    using choose_unique_filename_first_free [of base_name ext folder existing] by blast
  have ascending: "\<exists>ks. claim_repeatedly base_name ext folder existing n =
            map (\<lambda>k. path_join folder (nth_candidate base_name ext k)) ks \<and>
         sorted_wrt (<) ks \<and> (\<forall>k \<in> set ks. 1 \<le> k)"
    using claim_repeatedly_ascending [of base_name ext folder existing n] by blast
  have exact: "claim_repeatedly base_name ext folder existing n =
      map (\<lambda>k. path_join folder (nth_candidate base_name ext k)) [1..<n + 1]"
    if "\<forall>k. 1 \<le> k \<and> k \<le> n \<longrightarrow>
       path_join folder (nth_candidate base_name ext k) \<notin> set existing"
    using claim_repeatedly_from [of 1 folder base_name ext existing n] that by simp
  have inside: "\<exists>name. CHR ''/'' \<notin> set name \<and>
       choose_unique_filename base_name ext folder existing =
         (if folder = [] \<or> last folder = CHR ''/'' then folder @ name
          else folder @ ''/'' @ name)"
    if "CHR ''/'' \<notin> set (base_name @ ext)"
    using that by (rule choose_unique_filename_in_folder)
  show ?thesis
    using choose_unique_filename_free [of base_name ext folder existing] first
      claim_repeatedly_fresh [of base_name ext folder existing n] ascending exact inside
    by blast
qed


theorem resolver_order_witness:
  "claim_repeatedly ''a'' ''.txt'' ''out'' [''out/b.txt''] 3 =
     [''out/a.txt'', ''out/a (2).txt'', ''out/a (3).txt''] \<and>
   choose_unique_filename ''a'' ''.txt'' ''out'' [''out/b.txt''] \<notin> set [''out/b.txt''] \<and>
   (\<exists>name. CHR ''/'' \<notin> set name \<and>
      choose_unique_filename ''a'' ''.txt'' ''out'' [''out/b.txt''] = ''out/'' @ name)"
proof -
  have free: "\<forall>k. 1 \<le> k \<and> k \<le> 3 \<longrightarrow>
      path_join ''out'' (nth_candidate ''a'' ''.txt'' k) \<notin> set [''out/b.txt'']"
    by (simp add: path_join_def nth_candidate_def)
  have plain: "CHR ''/'' \<notin> set (''a'' @ ''.txt'')"
    by simp
  have names: "map (\<lambda>k. path_join ''out'' (nth_candidate ''a'' ''.txt'' k)) [1..<3 + 1] =
      [''out/a.txt'', ''out/a (2).txt'', ''out/a (3).txt'']"
    by code_simp
  note order = resolver_order [of "''a''" "''.txt''" "''out''" "[''out/b.txt'']" 3]
  from order free
  have "claim_repeatedly ''a'' ''.txt'' ''out'' [''out/b.txt''] 3 =
      map (\<lambda>k. path_join ''out'' (nth_candidate ''a'' ''.txt'' k)) [1..<3 + 1]"
    by blast
  then have calls: "claim_repeatedly ''a'' ''.txt'' ''out'' [''out/b.txt''] 3 =
      [''out/a.txt'', ''out/a (2).txt'', ''out/a (3).txt'']"
    by (simp only: names)
  from order
  have new: "choose_unique_filename ''a'' ''.txt'' ''out'' [''out/b.txt''] \<notin> set [''out/b.txt'']"
    by blast
  from order plain
  have "\<exists>name. CHR ''/'' \<notin> set name \<and>
      choose_unique_filename ''a'' ''.txt'' ''out'' [''out/b.txt''] =
        (if ''out'' = [] \<or> last ''out'' = CHR ''/'' then ''out'' @ name
         else ''out'' @ ''/'' @ name)"
    by blast
  then have inside: "\<exists>name. CHR ''/'' \<notin> set name \<and>
      choose_unique_filename ''a'' ''.txt'' ''out'' [''out/b.txt''] = ''out/'' @ name"
    by simp
  from calls new inside show ?thesis by blast
qed

end
